theory Spec2Isabelle
  imports Main "HOL-Library.Multiset"
begin

section \<open>Machine arithmetic\<close>

text \<open>
  Numbers are \<^verbatim>\<open>std::uint64_t\<close>. They are modelled as natural numbers, and every
  addition and multiplication of the source is followed by the reduction modulo \<open>2 ^ 64\<close>
  that the machine performs. Division and remainder cannot overflow.
\<close>

definition u64 :: "nat \<Rightarrow> nat" where
  "u64 x = x mod 2 ^ 64"

section \<open>The calculator object\<close>

text \<open>
  What the program writes to \<^verbatim>\<open>std::cout\<close>: one line per new result
  (\<^verbatim>\<open>"<n> is[ not] happy"\<close>) and one line per milestone
  (\<^verbatim>\<open>"<lastMilestone> numbers calculated"\<close>).
\<close>

datatype event = Result nat bool | Milestone nat

text \<open>
  The fields of \<^verbatim>\<open>class HnCalculator\<close>, in the order of the source, and what the
  operations read and write outside the object: the lines printed so far, and the memory
  that \<^verbatim>\<open>new char[base]\<close> hands out. \<open>fresh c k\<close> is what the \<open>k\<close>-th array allocated
  holds when the program receives it, one counter for each of its \<^verbatim>\<open>base\<close> elements:
  the source stores nothing in the array before it reads it, so these contents are an
  input of the program. \<open>allocated\<close> counts the arrays allocated so far. The two mutexes
  are not modelled: every operation below is one uninterrupted call.
\<close>

record HnCalculator =
  cacheResults :: bool
  skipPermutations :: bool
  base :: nat
  stopAt :: nat
  outputResults :: bool
  milestoneInc :: "nat option"
  cache :: "nat \<rightharpoonup> bool"
  nextNumber :: nat
  lastMilestone :: nat
  printed :: "event list"
  fresh :: "nat \<Rightarrow> nat list"
  allocated :: nat

text \<open>
  The constructor: \<^verbatim>\<open>stopAt = UINT64_MAX\<close>, \<^verbatim>\<open>outputResults = true\<close>, no milestone
  interval, \<^verbatim>\<open>nextNumber = 1\<close>, \<^verbatim>\<open>lastMilestone = 0\<close>; the cache holds 1 and 4 exactly
  when \<^verbatim>\<open>cacheResults\<close> is set. The last argument is the memory of the process the
  object is constructed in.
\<close>

definition newHnCalculator ::
  "bool \<Rightarrow> bool \<Rightarrow> nat \<Rightarrow> (nat \<Rightarrow> nat list) \<Rightarrow> HnCalculator" where
  "newHnCalculator cr sp b h =
     \<lparr> cacheResults = cr, skipPermutations = sp, base = b,
       stopAt = 2 ^ 64 - 1, outputResults = True, milestoneInc = None,
       cache = (if cr then [1 \<mapsto> True, 4 \<mapsto> False] else Map.empty),
       nextNumber = 1, lastMilestone = 0, printed = [], fresh = h, allocated = 0 \<rparr>"

section \<open>Digit arithmetic\<close>

text \<open>
  The member functions below read the field \<^verbatim>\<open>base\<close>; here it is the first argument
  \<open>b\<close>. The field is a \<^verbatim>\<open>char\<close>, so a base of at least 2 is at most 255 (127 where
  \<^verbatim>\<open>char\<close> is signed), and in \<^verbatim>\<open>n%base\<close> and \<^verbatim>\<open>n/base\<close> it is converted to the
  64-bit type of \<open>n\<close>. For \<open>b < 2\<close> the source divides by zero or does not return; the
  recursions of the model stop there, and every statement about them assumes \<open>2 \<le> b\<close>.
\<close>

function sumOfDigitSquares :: "nat \<Rightarrow> nat \<Rightarrow> nat" where
  "sumOfDigitSquares b n =
     (if n = 0 \<or> b < 2 then 0
      else u64 (u64 ((n mod b) * (n mod b)) + sumOfDigitSquares b (n div b)))"
  by pat_completeness auto
termination
  by (relation "measure (\<lambda>(b, n). n)") auto

text \<open>
  \<^verbatim>\<open>areDigitsSorted\<close>: the loop runs from the least significant digit upwards, with
  \<^verbatim>\<open>prevDigit\<close> starting at \<^verbatim>\<open>base\<close>.
\<close>

function areDigitsSorted_loop :: "nat \<Rightarrow> nat \<Rightarrow> nat \<Rightarrow> bool" where
  "areDigitsSorted_loop b prevDigit n =
     (if n > 0 \<and> 2 \<le> b
      then (if n mod b > prevDigit then False
            else areDigitsSorted_loop b (n mod b) (n div b))
      else True)"
  by pat_completeness auto
termination
  by (relation "measure (\<lambda>(b, p, n). n)") auto

definition areDigitsSorted :: "nat \<Rightarrow> nat \<Rightarrow> bool" where
  "areDigitsSorted b n = areDigitsSorted_loop b b n"

text \<open>
  \<^verbatim>\<open>sortDigits\<close>. The first loop counts the non-zero digits of \<open>n\<close>: the counter of
  digit \<open>d\<close> is \<^verbatim>\<open>digits[d-1]\<close>, and a digit 0 is not counted. The loop starts from
  what the array \<^verbatim>\<open>digits\<close> holds when it is allocated. A counter is a \<^verbatim>\<open>char\<close>; the
  model holds it as a natural number, which is exact while the counter stays within
  \<open>0 .. 127\<close>: so it is in every statement below, where a counter starts at 0 or 1 and
  counts at most the 64 digits of a 64-bit number (\<open>sortDigits_count_small\<close>).
\<close>

function sortDigits_count :: "nat \<Rightarrow> nat list \<Rightarrow> nat \<Rightarrow> nat list" where
  "sortDigits_count b digits n =
     (if n \<noteq> 0 \<and> 2 \<le> b
      then sortDigits_count b
             (if n mod b \<noteq> 0
              then digits[n mod b - 1 := digits ! (n mod b - 1) + 1]
              else digits)
             (n div b)
      else digits)"
  by pat_completeness auto
termination
  by (relation "measure (\<lambda>(b, ds, n). n)") auto

text \<open>The inner loop: \<^verbatim>\<open>for (char i = 0; i < digits[digit-1]; i++)\<close>.\<close>

function sortDigits_emit :: "nat \<Rightarrow> nat \<Rightarrow> nat \<Rightarrow> nat \<Rightarrow> nat \<Rightarrow> nat" where
  "sortDigits_emit b digit cnt i result =
     (if i < cnt
      then sortDigits_emit b digit cnt (i + 1) (u64 (u64 (result * b) + digit))
      else result)"
  by pat_completeness auto
termination
  by (relation "measure (\<lambda>(b, digit, cnt, i, result). cnt - i)") auto

text \<open>The outer loop: \<^verbatim>\<open>for (char digit = 1; digit < base; digit++)\<close>.\<close>

function sortDigits_build :: "nat \<Rightarrow> nat list \<Rightarrow> nat \<Rightarrow> nat \<Rightarrow> nat" where
  "sortDigits_build b digits digit result =
     (if digit < b
      then sortDigits_build b digits (digit + 1)
             (sortDigits_emit b digit (digits ! (digit - 1)) 0 result)
      else result)"
  by pat_completeness auto
termination
  by (relation "measure (\<lambda>(b, digits, digit, result). b - digit)") auto

text \<open>The two loops, on the contents \<open>digits\<close> of the array.\<close>

definition sortDigits_from :: "nat list \<Rightarrow> nat \<Rightarrow> nat \<Rightarrow> nat" where
  "sortDigits_from digits b n = sortDigits_build b (sortDigits_count b digits n) 1 0"

text \<open>
  \<^verbatim>\<open>sortDigits(n)\<close>: \<^verbatim>\<open>char *digits = new char[base]\<close> takes the next array, with the
  contents it happens to hold (nothing is stored in it, and it is never freed), and the
  loops run on it.
\<close>

definition sortDigits :: "HnCalculator \<Rightarrow> nat \<Rightarrow> nat \<times> HnCalculator" where
  "sortDigits c n =
     (sortDigits_from (fresh c (allocated c)) (base c) n, c\<lparr>allocated := allocated c + 1\<rparr>)"

section \<open>The cache\<close>

definition isCached :: "HnCalculator \<Rightarrow> nat \<Rightarrow> bool" where
  "isCached c n = (if \<not> cacheResults c then False else cache c n \<noteq> None)"

text \<open>
  \<^verbatim>\<open>newResult\<close> prints the result when \<^verbatim>\<open>outputResults\<close> is set and stores it when
  \<^verbatim>\<open>cacheResults\<close> is set. \<^verbatim>\<open>unordered_map::emplace\<close> inserts only when the key is
  absent.
\<close>

definition emplace :: "(nat \<rightharpoonup> bool) \<Rightarrow> nat \<Rightarrow> bool \<Rightarrow> (nat \<rightharpoonup> bool)" where
  "emplace m n happy = (if m n = None then m(n \<mapsto> happy) else m)"

definition newResult :: "HnCalculator \<Rightarrow> nat \<Rightarrow> bool \<Rightarrow> HnCalculator" where
  "newResult c n happy =
     (let c1 = (if outputResults c then c\<lparr>printed := printed c @ [Result n happy]\<rparr> else c)
      in if cacheResults c1 then c1\<lparr>cache := emplace (cache c1) n happy\<rparr> else c1)"

section \<open>Classification\<close>

text \<open>
  \<^verbatim>\<open>isHappy\<close> is recursive and need not return (on 0 it calls itself on 0), so it
  is a partial function: \<open>None\<close> is a call that does not return, \<open>Some (happy, c')\<close>
  one that returns \<open>happy\<close> and leaves the object as \<open>c'\<close>.
\<close>

partial_function (option) isHappy :: "HnCalculator \<Rightarrow> nat \<Rightarrow> (bool \<times> HnCalculator) option" where
  "isHappy c n =
     (if isCached c n then Some (the (cache c n), c)
      else if n = 1 then Some (True, c)
      else if n = 4 then Some (False, c)
      else
        (let childNumber = sumOfDigitSquares (base c) n
         in case (if skipPermutations c then sortDigits c childNumber
                  else (childNumber, c)) of
              (childNumber, c1) \<Rightarrow>
                Option.bind (isHappy c1 childNumber)
                  (\<lambda>(happy, c'). Some (happy, newResult c' n happy))))"

declare isHappy.simps [code]

section \<open>The cursor\<close>

text \<open>
  \<^verbatim>\<open>getNextNumber\<close>: the loop \<^verbatim>\<open>for (i = nextNumber; true; i++)\<close>. It returns at the
  first \<open>i\<close> that is not skipped; \<open>i++\<close> wraps at \<open>2 ^ 64\<close>, and 0 is never skipped.
\<close>

text \<open>
  The milestone test inside the loop, on the number \<open>i\<close> about to be returned:
  \<^verbatim>\<open>if (milestoneInc && i > lastMilestone+milestoneInc.value())\<close>, then
  \<^verbatim>\<open>lastMilestone += milestoneInc.value()\<close> and the line with the new \<^verbatim>\<open>lastMilestone\<close>.
\<close>

definition announce :: "HnCalculator \<Rightarrow> nat \<Rightarrow> HnCalculator" where
  "announce c i =
     (case milestoneInc c of
        None \<Rightarrow> c
      | Some inc \<Rightarrow>
          if i > u64 (lastMilestone c + inc)
          then c\<lparr>lastMilestone := u64 (lastMilestone c + inc),
                 printed := printed c @ [Milestone (u64 (lastMilestone c + inc))]\<rparr>
          else c)"

function getNextNumber_loop :: "HnCalculator \<Rightarrow> nat \<Rightarrow> nat \<times> HnCalculator" where
  "getNextNumber_loop c i =
     (if \<not> skipPermutations c \<or> areDigitsSorted (base c) i
      then (i, (announce c i)\<lparr>nextNumber := u64 (i + 1)\<rparr>)
      else getNextNumber_loop c (u64 (i + 1)))"
  by pat_completeness auto
termination
proof (relation "measure (\<lambda>(c, i). if i = 0 then 0 else if i < 2 ^ 64 then 2 ^ 64 - i else 2 ^ 64 + 1)")
  show "wf (measure (\<lambda>(c, i). if i = 0 then 0 else if i < 2 ^ 64 then 2 ^ 64 - i else 2 ^ 64 + 1))"
    by simp
next
  fix c :: HnCalculator and i :: nat
  assume a: "\<not> (\<not> skipPermutations c \<or> areDigitsSorted (base c) i)"
  have z: "areDigitsSorted (base c) 0" by (simp add: areDigitsSorted_def)
  have nz: "i \<noteq> 0"
  proof
    assume "i = 0"
    with a z show False by simp
  qed
  have lt: "u64 (i + 1) < 2 ^ 64" by (simp add: u64_def)
  show "((c, u64 (i + 1)), (c, i))
        \<in> measure (\<lambda>(c, i). if i = 0 then 0 else if i < 2 ^ 64 then 2 ^ 64 - i else 2 ^ 64 + 1)"
  proof (cases "i < 2 ^ 64")
    case False
    with lt nz show ?thesis by auto
  next
    case True
    show ?thesis
    proof (cases "i + 1 = 2 ^ 64")
      case True
      then have "u64 (i + 1) = 0" by (simp add: u64_def)
      with nz \<open>i < 2 ^ 64\<close> show ?thesis by simp
    next
      case False
      with \<open>i < 2 ^ 64\<close> have "u64 (i + 1) = i + 1" by (simp add: u64_def)
      with nz \<open>i < 2 ^ 64\<close> False show ?thesis by simp
    qed
  qed
qed

definition getNextNumber :: "HnCalculator \<Rightarrow> nat \<times> HnCalculator" where
  "getNextNumber c = getNextNumber_loop c (nextNumber c)"

text \<open>
  \<^verbatim>\<open>threadLoop\<close> for one worker: \<^verbatim>\<open>n = 0; while (n < stopAt) isHappy(n = getNextNumber())\<close>.
  The model also returns the numbers on which \<^verbatim>\<open>isHappy\<close> was called, in order.
\<close>

partial_function (option) threadLoop_from :: "HnCalculator \<Rightarrow> nat \<Rightarrow> (nat list \<times> HnCalculator) option" where
  "threadLoop_from c n =
     (if n < stopAt c
      then (case getNextNumber c of (i, c1) \<Rightarrow>
              Option.bind (isHappy c1 i) (\<lambda>(happy, c2).
                Option.bind (threadLoop_from c2 i) (\<lambda>(ns, c3). Some (i # ns, c3))))
      else Some ([], c))"

declare threadLoop_from.simps [code]

definition threadLoop :: "HnCalculator \<Rightarrow> (nat list \<times> HnCalculator) option" where
  "threadLoop c = threadLoop_from c 0"

section \<open>Notions used in the statements and proofs\<close>

text \<open>
  The digits of \<open>n\<close> in base \<open>b\<close>, least significant first, and the number a list of
  digits stands for.
\<close>

function digitsOf :: "nat \<Rightarrow> nat \<Rightarrow> nat list" where
  "digitsOf b n = (if n = 0 \<or> b < 2 then [] else (n mod b) # digitsOf b (n div b))"
  by pat_completeness auto
termination
  by (relation "measure (\<lambda>(b, n). n)") auto

fun valueOf :: "nat \<Rightarrow> nat list \<Rightarrow> nat" where
  "valueOf b [] = 0"
| "valueOf b (d # ds) = d + b * valueOf b ds"

text \<open>The sum of the squares of a list of digits.\<close>

definition sq_sum :: "nat list \<Rightarrow> nat" where
  "sq_sum ds = sum_list (map (\<lambda>d. d * d) ds)"

text \<open>
  Appending digits to a number, most significant first: with the machine's reductions
  (\<open>wfold\<close>) and without them (\<open>ifold\<close>).
\<close>

definition wfold :: "nat \<Rightarrow> nat \<Rightarrow> nat list \<Rightarrow> nat" where
  "wfold b r ds = foldl (\<lambda>r d. u64 (u64 (r * b) + d)) r ds"

definition ifold :: "nat \<Rightarrow> nat \<Rightarrow> nat list \<Rightarrow> nat" where
  "ifold b r ds = foldl (\<lambda>r d. r * b + d) r ds"

text \<open>The digits from \<open>i\<close> up to \<open>j - 1\<close> in ascending order, digit \<open>d\<close> repeated \<open>c d\<close> times.\<close>

definition spread :: "(nat \<Rightarrow> nat) \<Rightarrow> nat \<Rightarrow> nat \<Rightarrow> nat list" where
  "spread c i j = concat (map (\<lambda>d. replicate (c d) d) [i..<j])"

text \<open>The digits of the result of \<^verbatim>\<open>sortDigits\<close>, least significant first.\<close>

definition sortedDigits :: "nat \<Rightarrow> nat \<Rightarrow> nat list" where
  "sortedDigits b n = rev (spread (count_list (digitsOf b n)) 1 b)"

text \<open>
  \<^verbatim>\<open>sortDigits\<close> on an array whose counters are all 0 when it is allocated, and a memory
  in which every array is so.
\<close>

definition sortDigits_zeroed :: "nat \<Rightarrow> nat \<Rightarrow> nat" where
  "sortDigits_zeroed b n = sortDigits_from (replicate b 0) b n"

definition zeroes :: "nat \<Rightarrow> nat \<Rightarrow> nat list" where
  "zeroes b k = replicate b 0"

definition zeroed :: "HnCalculator \<Rightarrow> bool" where
  "zeroed c = (\<forall>k. fresh c k = replicate (base c) 0)"

text \<open>
  Two more memories: one in which every array holds \<open>xs\<close>, and one in which the first
  array allocated holds \<open>xs\<close> and every later one zeroes.
\<close>

definition every_array :: "nat list \<Rightarrow> nat \<Rightarrow> nat list" where
  "every_array xs k = xs"

definition first_array :: "nat list \<Rightarrow> nat \<Rightarrow> nat \<Rightarrow> nat list" where
  "first_array xs b k = (if k = 0 then xs else replicate b 0)"

text \<open>
  An object in base 10 that sorts, in a memory whose arrays all hold 1 in the counter of
  the digit 1, with no entry in the cache but those of 1 and 4; and numbers that
  \<^verbatim>\<open>isHappy\<close> calls itself on in turn, on such an object.
\<close>

definition looping :: "HnCalculator \<Rightarrow> bool" where
  "looping c =
     (skipPermutations c \<and> base c = 10 \<and>
      (\<forall>k. fresh c k = [1, 0, 0, 0, 0, 0, 0, 0, 0, 0]) \<and>
      (\<forall>k. cache c k \<noteq> None \<longrightarrow> k = 1 \<or> k = 4))"

definition loop_numbers :: "nat list" where
  "loop_numbers = [2, 14, 117, 115, 127, 145, 124, 112, 16, 137, 159]"

text \<open>
  The number \<^verbatim>\<open>isHappy\<close> calls itself on, and the object after it is computed: the sum
  of the squares of the digits, sorted when \<^verbatim>\<open>skipPermutations\<close> is set. \<open>childOf\<close> is that
  number in a zeroed memory.
\<close>

definition childCall :: "HnCalculator \<Rightarrow> nat \<Rightarrow> nat \<times> HnCalculator" where
  "childCall c n =
     (let childNumber = sumOfDigitSquares (base c) n
      in if skipPermutations c then sortDigits c childNumber else (childNumber, c))"

definition childOf :: "bool \<Rightarrow> nat \<Rightarrow> nat \<Rightarrow> nat" where
  "childOf sp b n =
     (let childNumber = sumOfDigitSquares b n
      in if sp then sortDigits_zeroed b childNumber else childNumber)"

text \<open>
  The result of the iteration in base 10 in a zeroed memory: \<open>classifies sp n r\<close> holds
  when the numbers \<open>n\<close>, \<open>childOf sp 10 n\<close>, ... reach 1 (\<open>r\<close> is true) or 4 (\<open>r\<close> is false).
  \<open>classify\<close> computes it for a bounded number of steps.
\<close>

inductive classifies :: "bool \<Rightarrow> nat \<Rightarrow> bool \<Rightarrow> bool" for sp :: bool where
  one: "classifies sp 1 True"
| four: "classifies sp 4 False"
| step: "n \<noteq> 1 \<Longrightarrow> n \<noteq> 4 \<Longrightarrow> classifies sp (childOf sp 10 n) r \<Longrightarrow> classifies sp n r"

fun classify :: "bool \<Rightarrow> nat \<Rightarrow> nat \<Rightarrow> bool option" where
  "classify sp 0 n = None"
| "classify sp (Suc k) n =
     (if n = 1 then Some True else if n = 4 then Some False
      else classify sp k (childOf sp 10 n))"

text \<open>
  Every cached value is the result of the iteration; two objects with the same settings
  and cursor.
\<close>

definition cache_sound :: "HnCalculator \<Rightarrow> bool" where
  "cache_sound c = (\<forall>k v. cache c k = Some v \<longrightarrow> classifies (skipPermutations c) k v)"

definition same_settings :: "HnCalculator \<Rightarrow> HnCalculator \<Rightarrow> bool" where
  "same_settings c c' =
     (cacheResults c' = cacheResults c \<and> skipPermutations c' = skipPermutations c \<and>
      base c' = base c \<and> stopAt c' = stopAt c \<and> outputResults c' = outputResults c \<and>
      milestoneInc c' = milestoneInc c \<and> nextNumber c' = nextNumber c \<and>
      lastMilestone c' = lastMilestone c)"

text \<open>\<^verbatim>\<open>isHappy\<close> called on the numbers of a list, one after the other, on the same object.\<close>

fun isHappy_all :: "HnCalculator \<Rightarrow> nat list \<Rightarrow> (bool list \<times> HnCalculator) option" where
  "isHappy_all c [] = Some ([], c)"
| "isHappy_all c (n # ns) =
     Option.bind (isHappy c n) (\<lambda>(happy, c1).
       Option.bind (isHappy_all c1 ns) (\<lambda>(rs, c2). Some (happy # rs, c2)))"

text \<open>\<^verbatim>\<open>getNextNumber\<close> called \<open>k\<close> times on the same object: the numbers returned, in order.\<close>

fun getNextNumbers :: "nat \<Rightarrow> HnCalculator \<Rightarrow> nat list \<times> HnCalculator" where
  "getNextNumbers 0 c = ([], c)"
| "getNextNumbers (Suc k) c =
     (case getNextNumber c of (i, c1) \<Rightarrow>
        case getNextNumbers k c1 of (ns, c2) \<Rightarrow> (i # ns, c2))"

text \<open>The boundaries of the milestone lines printed, in order.\<close>

fun milestonesOf :: "event list \<Rightarrow> nat list" where
  "milestonesOf [] = []"
| "milestonesOf (Milestone m # es) = m # milestonesOf es"
| "milestonesOf (Result n happy # es) = milestonesOf es"

text \<open>
  The state of the cursor after \<open>k\<close> calls without skipping, with milestone interval \<open>M\<close>:
  the boundaries \<open>M\<close>, \<open>2M\<close>, ... up to \<open>(k - 1) div M\<close> times \<open>M\<close> are printed.
\<close>

definition milestone_state :: "nat \<Rightarrow> nat \<Rightarrow> HnCalculator \<Rightarrow> bool" where
  "milestone_state M k c =
     (\<not> skipPermutations c \<and> milestoneInc c = Some M \<and> nextNumber c = k + 1 \<and>
      lastMilestone c = (k - 1) div M * M \<and>
      milestonesOf (printed c) = map (\<lambda>j. j * M) [1..<Suc ((k - 1) div M)])"

text \<open>
  The milestone lines printed so far are those of the boundaries \<open>M\<close>, \<open>2M\<close>, ..., \<open>jM\<close>,
  with or without skipping, and the next boundary does not overflow.
\<close>

definition milestone_chain :: "nat \<Rightarrow> nat \<Rightarrow> HnCalculator \<Rightarrow> bool" where
  "milestone_chain M j c =
     (milestoneInc c = Some M \<and> lastMilestone c = j * M \<and> j * M + M < 2 ^ 64 \<and>
      milestonesOf (printed c) = map (\<lambda>i. i * M) [1..<Suc j])"

text \<open>
  The operations that touch the object, and a sequence of them performed one after the
  other: a call of \<^verbatim>\<open>isHappy\<close>, of \<^verbatim>\<open>getNextNumber\<close>, of \<^verbatim>\<open>newResult\<close>.
\<close>

datatype call = IsHappy nat | GetNextNumber | NewResult nat bool

fun perform :: "HnCalculator \<Rightarrow> call \<Rightarrow> HnCalculator option" where
  "perform c (IsHappy n) = map_option snd (isHappy c n)"
| "perform c GetNextNumber = Some (snd (getNextNumber c))"
| "perform c (NewResult n happy) = Some (newResult c n happy)"

fun performAll :: "HnCalculator \<Rightarrow> call list \<Rightarrow> HnCalculator option" where
  "performAll c [] = Some c"
| "performAll c (x # xs) = Option.bind (perform c x) (\<lambda>c'. performAll c' xs)"

text \<open>
  What a returned call \<^verbatim>\<open>isHappy(n)\<close> does to the cache: entries stay, a new entry has the
  returned value, and with \<^verbatim>\<open>cacheResults\<close> set \<open>n\<close> has an entry with the returned value,
  unless \<open>n\<close> was not cached and the call returned at \<^verbatim>\<open>n == 1\<close> or \<^verbatim>\<open>n == 4\<close>.
\<close>

definition cache_grows :: "HnCalculator \<Rightarrow> nat \<Rightarrow> bool \<times> HnCalculator \<Rightarrow> bool" where
  "cache_grows c n y =
     (case y of (r, c') \<Rightarrow>
        same_settings c c' \<and>
        (\<forall>k v. cache c k = Some v \<longrightarrow> cache c' k = Some v) \<and>
        (\<forall>k v. cache c' k = Some v \<longrightarrow> cache c k = Some v \<or> v = r) \<and>
        (cacheResults c \<longrightarrow> isCached c n \<or> (n \<noteq> 1 \<and> n \<noteq> 4) \<longrightarrow> cache c' n = Some r))"

text \<open>The cache is in use and holds 1 and 4, as the constructor leaves it.\<close>

definition seeded :: "HnCalculator \<Rightarrow> bool" where
  "seeded c = (cacheResults c \<and> cache c 1 \<noteq> None \<and> cache c 4 \<noteq> None)"

text \<open>
  What a returned \<^verbatim>\<open>threadLoop\<close> has done: every number it called \<^verbatim>\<open>isHappy\<close> on, but
  the last, is below \<^verbatim>\<open>stopAt\<close>; the last is not.
\<close>

definition loop_bounded :: "HnCalculator \<Rightarrow> nat \<Rightarrow> nat list \<times> HnCalculator \<Rightarrow> bool" where
  "loop_bounded c n y =
     (case y of (ns, c') \<Rightarrow>
        stopAt c' = stopAt c \<and> (ns = [] \<longleftrightarrow> \<not> n < stopAt c) \<and>
        (\<forall>x \<in> set (butlast ns). x < stopAt c) \<and> (ns \<noteq> [] \<longrightarrow> stopAt c \<le> last ns))"

section \<open>Digits\<close>

declare sumOfDigitSquares.simps [simp del] areDigitsSorted_loop.simps [simp del]
  sortDigits_count.simps [simp del] sortDigits_emit.simps [simp del]
  sortDigits_build.simps [simp del] getNextNumber_loop.simps [simp del]
  digitsOf.simps [simp del]

lemma digitsOf_0 [simp]: "digitsOf b 0 = []"
  by (subst digitsOf.simps) simp

lemma digitsOf_step: "2 \<le> b \<Longrightarrow> 0 < n \<Longrightarrow> digitsOf b n = (n mod b) # digitsOf b (n div b)"
  by (subst digitsOf.simps) simp

lemma digitsOf_lt: "d \<in> set (digitsOf b n) \<Longrightarrow> d < b"
proof (induction b n rule: digitsOf.induct)
  case (1 b n)
  show ?case
  proof (cases "n = 0 \<or> b < 2")
    case True
    with "1.prems" show ?thesis by (subst (asm) digitsOf.simps) simp
  next
    case False
    with "1.prems" have "d = n mod b \<or> d \<in> set (digitsOf b (n div b))"
      by (subst (asm) digitsOf.simps) simp
    with False "1.IH" show ?thesis by auto
  qed
qed

lemma valueOf_digitsOf: "2 \<le> b \<Longrightarrow> valueOf b (digitsOf b n) = n"
proof (induction b n rule: digitsOf.induct)
  case (1 b n)
  show ?case
  proof (cases "n = 0")
    case True
    then show ?thesis by simp
  next
    case False
    with "1.prems" "1.IH" have "valueOf b (digitsOf b (n div b)) = n div b" by simp
    with False "1.prems" show ?thesis by (simp add: digitsOf_step)
  qed
qed

lemma length_digitsOf: "2 \<le> b \<Longrightarrow> n < 2 ^ k \<Longrightarrow> length (digitsOf b n) \<le> k"
proof (induction k arbitrary: n)
  case 0
  then show ?case by simp
next
  case (Suc k)
  show ?case
  proof (cases "n = 0")
    case True
    then show ?thesis by simp
  next
    case False
    have "n div b \<le> n div 2" using Suc.prems(1) by (simp add: div_le_mono2)
    also have "n div 2 < 2 ^ k" using Suc.prems(2) by simp
    finally have "length (digitsOf b (n div b)) \<le> k" using Suc.IH Suc.prems(1) by simp
    with False Suc.prems(1) show ?thesis by (simp add: digitsOf_step)
  qed
qed

lemma digitsOf_valueOf:
  "\<forall>d \<in> set ds. 0 < d \<and> d < b \<Longrightarrow> digitsOf b (valueOf b ds) = ds"
proof (induction ds)
  case Nil
  then show ?case by simp
next
  case (Cons d ds)
  then have d: "0 < d" "d < b" and b: "2 \<le> b" by auto
  from Cons have IH: "digitsOf b (valueOf b ds) = ds" by simp
  have m: "(d + b * valueOf b ds) mod b = d" using d by simp
  have v: "(d + b * valueOf b ds) div b = valueOf b ds" using d by simp
  show ?case using d b IH m v by (simp add: digitsOf_step)
qed

lemma sq_sum_bound: "\<forall>d \<in> set ds. d < b \<Longrightarrow> sq_sum ds \<le> length ds * (b * b)"
proof (induction ds)
  case Nil
  then show ?case by (simp add: sq_sum_def)
next
  case (Cons d ds)
  then have "d * d \<le> b * b" by (simp add: mult_le_mono)
  moreover from Cons have "sq_sum ds \<le> length ds * (b * b)" by simp
  ultimately show ?case by (simp add: sq_sum_def)
qed

lemma sq_sum_digitsOf_bound:
  assumes "2 \<le> b" "b < 256" "n < 2 ^ 64"
  shows "sq_sum (digitsOf b n) < 2 ^ 23"
proof -
  have "sq_sum (digitsOf b n) \<le> length (digitsOf b n) * (b * b)"
    by (rule sq_sum_bound) (simp add: digitsOf_lt)
  also have "\<dots> \<le> 64 * (b * b)"
    using length_digitsOf [OF assms(1) assms(3)] by simp
  also have "b * b \<le> 255 * 255" using assms(2) by (intro mult_le_mono) simp_all
  finally show ?thesis by simp
qed

lemma sumOfDigitSquares_digits:
  "2 \<le> b \<Longrightarrow> b < 256 \<Longrightarrow> n < 2 ^ 64 \<Longrightarrow> sumOfDigitSquares b n = sq_sum (digitsOf b n)"
proof (induction b n rule: sumOfDigitSquares.induct)
  case (1 b n)
  show ?case
  proof (cases "n = 0")
    case True
    then show ?thesis by (subst sumOfDigitSquares.simps) (simp add: sq_sum_def)
  next
    case False
    have "n div b \<le> n" by (rule div_le_dividend)
    with "1.prems" have lt: "n div b < 2 ^ 64" by (rule_tac le_less_trans)
    from False "1.prems" "1.IH" lt
    have IH: "sumOfDigitSquares b (n div b) = sq_sum (digitsOf b (n div b))" by simp
    have total: "sq_sum (digitsOf b n) < 2 ^ 23"
      using "1.prems" by (rule sq_sum_digitsOf_bound)
    have unf: "sq_sum (digitsOf b n) = (n mod b) * (n mod b) + sq_sum (digitsOf b (n div b))"
      using False "1.prems" by (simp add: digitsOf_step sq_sum_def)
    have small: "(n mod b) * (n mod b) < 2 ^ 64" "(n mod b) * (n mod b) + sq_sum (digitsOf b (n div b)) < 2 ^ 64"
      using total unf by simp_all
    show ?thesis
      using False "1.prems" IH unf small
      by (subst sumOfDigitSquares.simps) (simp add: u64_def)
  qed
qed

section \<open>Sorted digits\<close>

lemma areDigitsSorted_loop_digits:
  "2 \<le> b \<Longrightarrow> areDigitsSorted_loop b p n = sorted_wrt (\<ge>) (p # digitsOf b n)"
proof (induction b p n rule: areDigitsSorted_loop.induct)
  case (1 b p n)
  show ?case
  proof (cases "n = 0")
    case True
    then show ?thesis by (subst areDigitsSorted_loop.simps) simp
  next
    case False
    note nz = False
    show ?thesis
    proof (cases "n mod b > p")
      case True
      with nz "1.prems" show ?thesis
        by (subst areDigitsSorted_loop.simps) (auto simp: digitsOf_step)
    next
      case False
      with nz "1.prems" "1.IH"
      have IH: "areDigitsSorted_loop b (n mod b) (n div b) = sorted_wrt (\<ge>) (n mod b # digitsOf b (n div b))"
        by simp
      have "areDigitsSorted_loop b p n = areDigitsSorted_loop b (n mod b) (n div b)"
        using nz False "1.prems" by (subst areDigitsSorted_loop.simps) simp
      also have "\<dots> = sorted_wrt (\<ge>) (p # n mod b # digitsOf b (n div b))"
        using IH False by (fastforce simp: not_less)
      finally show ?thesis using nz "1.prems" by (simp add: digitsOf_step)
    qed
  qed
qed

lemma areDigitsSorted_digits:
  assumes "2 \<le> b"
  shows "areDigitsSorted b n = sorted_wrt (\<ge>) (digitsOf b n)"
proof -
  have "\<forall>d \<in> set (digitsOf b n). d \<le> b" using digitsOf_lt [of _ b n] by (auto intro: less_imp_le)
  then show ?thesis using assms by (simp add: areDigitsSorted_def areDigitsSorted_loop_digits)
qed

lemma sortDigits_count_hist:
  "2 \<le> b \<Longrightarrow> b - 1 \<le> length h \<Longrightarrow>
   length (sortDigits_count b h n) = length h \<and>
   (\<forall>j < length h. sortDigits_count b h n ! j = h ! j + count_list (digitsOf b n) (j + 1))"
proof (induction b h n rule: sortDigits_count.induct)
  case (1 b h n)
  show ?case
  proof (cases "n = 0")
    case True
    then show ?thesis by (subst sortDigits_count.simps, subst (2) sortDigits_count.simps) simp
  next
    case False
    define h' where "h' = (if n mod b \<noteq> 0 then h[n mod b - 1 := h ! (n mod b - 1) + 1] else h)"
    have len: "length h' = length h" by (simp add: h'_def)
    have unf: "sortDigits_count b h n = sortDigits_count b h' (n div b)"
      using False "1.prems" by (subst sortDigits_count.simps) (simp add: h'_def)
    have IH: "length (sortDigits_count b h' (n div b)) = length h' \<and>
      (\<forall>j < length h'. sortDigits_count b h' (n div b) ! j = h' ! j + count_list (digitsOf b (n div b)) (j + 1))"
      using "1.IH" [of ] False "1.prems" len unfolding h'_def by simp
    have modlt: "n mod b < b" using "1.prems" by simp
    have h'j: "h' ! j = h ! j + (if n mod b = j + 1 then 1 else 0)" if "j < length h" for j
    proof (cases "n mod b = 0")
      case True
      then show ?thesis by (simp add: h'_def)
    next
      case False
      then show ?thesis using that by (auto simp: h'_def nth_list_update)
    qed
    have cnt: "count_list (digitsOf b n) (j + 1) =
        count_list (digitsOf b (n div b)) (j + 1) + (if n mod b = j + 1 then 1 else 0)" for j
      using False "1.prems" by (simp add: digitsOf_step)
    show ?thesis using IH len h'j cnt unf by simp
  qed
qed

lemma sortDigits_emit_wfold:
  "sortDigits_emit b digit cnt i r = wfold b r (replicate (cnt - i) digit)"
proof (induction b digit cnt i r rule: sortDigits_emit.induct)
  case (1 b digit cnt i r)
  show ?case
  proof (cases "i < cnt")
    case True
    then have "cnt - i = Suc (cnt - (i + 1))" by simp
    with True "1.IH" show ?thesis
      by (subst sortDigits_emit.simps) (simp add: wfold_def)
  next
    case False
    then show ?thesis by (subst sortDigits_emit.simps) (simp add: wfold_def)
  qed
qed

lemma sortDigits_build_wfold:
  "sortDigits_build b h digit r = wfold b r (spread (\<lambda>d. h ! (d - 1)) digit b)"
proof (induction b h digit r rule: sortDigits_build.induct)
  case (1 b h digit r)
  show ?case
  proof (cases "digit < b")
    case True
    then have "[digit..<b] = digit # [digit + 1..<b]" by (simp add: upt_conv_Cons)
    with True "1.IH" show ?thesis
      by (subst sortDigits_build.simps) (simp add: wfold_def spread_def sortDigits_emit_wfold)
  next
    case False
    then show ?thesis by (subst sortDigits_build.simps) (simp add: wfold_def spread_def)
  qed
qed

lemma ifold_ge: "1 \<le> b \<Longrightarrow> r \<le> ifold b r ds"
proof (induction ds arbitrary: r)
  case Nil
  then show ?case by (simp add: ifold_def)
next
  case (Cons d ds)
  have "r \<le> r * b + d" using Cons.prems by (cases b) simp_all
  also have "\<dots> \<le> ifold b (r * b + d) ds" using Cons by simp
  finally show ?case by (simp add: ifold_def)
qed

lemma wfold_ifold: "1 \<le> b \<Longrightarrow> ifold b r ds < 2 ^ 64 \<Longrightarrow> wfold b r ds = ifold b r ds"
proof (induction ds arbitrary: r)
  case Nil
  then show ?case by (simp add: ifold_def wfold_def)
next
  case (Cons d ds)
  have step: "ifold b r (d # ds) = ifold b (r * b + d) ds" by (simp add: ifold_def)
  have "r * b + d \<le> ifold b (r * b + d) ds" using Cons.prems(1) by (rule ifold_ge)
  with Cons.prems(2) step have lt: "r * b + d < 2 ^ 64" by simp
  then have "r * b < 2 ^ 64" by simp
  with lt have u: "u64 (u64 (r * b) + d) = r * b + d" by (simp add: u64_def)
  have "wfold b r (d # ds) = wfold b (r * b + d) ds" using u by (simp add: wfold_def)
  also have "\<dots> = ifold b (r * b + d) ds" using Cons step by simp
  finally show ?case using step by simp
qed

lemma valueOf_snoc2: "valueOf b (xs @ [d, r]) = valueOf b (xs @ [d + b * r])"
  by (induction xs) simp_all

lemma valueOf_snoc0: "valueOf b (xs @ [0]) = valueOf b xs"
  by (induction xs) simp_all

lemma ifold_valueOf: "ifold b r ds = valueOf b (rev ds @ [r])"
proof (induction ds arbitrary: r)
  case Nil
  then show ?case by (simp add: ifold_def)
next
  case (Cons d ds)
  have "ifold b r (d # ds) = ifold b (r * b + d) ds" by (simp add: ifold_def)
  also have "\<dots> = valueOf b (rev ds @ [d + b * r])" using Cons by (simp add: ac_simps)
  also have "\<dots> = valueOf b (rev ds @ [d, r])" by (simp add: valueOf_snoc2)
  finally show ?case by simp
qed

lemma ifold_0: "ifold b 0 ds = valueOf b (rev ds)"
  by (simp add: ifold_valueOf valueOf_snoc0)

lemma count_list_replicate: "count_list (replicate k a) x = (if x = a then k else 0)"
  by (induction k) auto

lemma count_list_spread:
  "count_list (spread c i j) x = (if i \<le> x \<and> x < j then c x else 0)"
proof (induction j)
  case 0
  then show ?case by (simp add: spread_def)
next
  case (Suc j)
  show ?case
  proof (cases "i \<le> j")
    case True
    then have "spread c i (Suc j) = spread c i j @ replicate (c j) j"
      by (simp add: spread_def)
    moreover have "x < Suc j \<longleftrightarrow> x < j \<or> x = j" by auto
    ultimately show ?thesis using Suc True by (auto simp: count_list_replicate)
  next
    case False
    then show ?thesis by (simp add: spread_def)
  qed
qed

lemma set_spread: "x \<in> set (spread c i j) \<Longrightarrow> i \<le> x \<and> x < j"
  by (auto simp: spread_def)

lemma sorted_spread: "sorted (spread c i j)"
proof (induction j)
  case 0
  then show ?case by (simp add: spread_def)
next
  case (Suc j)
  show ?case
  proof (cases "i \<le> j")
    case True
    then have "spread c i (Suc j) = spread c i j @ replicate (c j) j"
      by (simp add: spread_def)
    moreover have "\<forall>x \<in> set (spread c i j). x \<le> j" using set_spread [of _ c i j] by (auto intro: less_imp_le)
    ultimately show ?thesis using Suc by (auto simp: sorted_append sorted_replicate)
  next
    case False
    then show ?thesis by (simp add: spread_def)
  qed
qed

lemma mset_spread_digits:
  "mset (spread (count_list (digitsOf b n)) 1 b) = filter_mset (\<lambda>d. d \<noteq> 0) (mset (digitsOf b n))"
proof (rule multiset_eqI)
  fix x
  have "x \<ge> b \<Longrightarrow> count_list (digitsOf b n) x = 0"
    using digitsOf_lt [of x b n] by (auto simp: count_list_0_iff)
  then show "count (mset (spread (count_list (digitsOf b n)) 1 b)) x =
        count (filter_mset (\<lambda>d. d \<noteq> 0) (mset (digitsOf b n))) x"
    by (auto simp: count_mset count_list_spread not_less)
qed

lemma valueOf_move_front:
  "1 \<le> b \<Longrightarrow> sorted_wrt (\<ge>) ds \<Longrightarrow> e \<in> set ds \<Longrightarrow>
   valueOf b ds \<le> valueOf b (e # remove1 e ds)"
proof (induction ds)
  case Nil
  then show ?case by simp
next
  case (Cons x xs)
  show ?case
  proof (cases "x = e")
    case True
    then show ?thesis by simp
  next
    case False
    with Cons.prems have e: "e \<in> set xs" and ex: "e \<le> x" and s: "sorted_wrt (\<ge>) xs" by auto
    from Cons.IH [OF Cons.prems(1) s e] have "valueOf b xs \<le> e + b * valueOf b (remove1 e xs)" by simp
    then have "b * valueOf b xs \<le> b * (e + b * valueOf b (remove1 e xs))" by (rule mult_le_mono2)
    moreover have "x + b * e \<le> e + b * x"
    proof (cases b)
      case 0
      then show ?thesis using Cons.prems(1) by simp
    next
      case (Suc k)
      have "k * e \<le> k * x" using ex by simp
      with Suc show ?thesis by simp
    qed
    ultimately show ?thesis using False by (simp add: algebra_simps)
  qed
qed

lemma sorted_wrt_remove1: "sorted_wrt P xs \<Longrightarrow> sorted_wrt P (remove1 a xs)"
proof (induction xs)
  case Nil
  then show ?case by simp
next
  case (Cons x xs)
  have "set (remove1 a xs) \<subseteq> set xs" by (rule set_remove1_subset)
  with Cons show ?case by auto
qed

lemma valueOf_minimal:
  "1 \<le> b \<Longrightarrow> sorted_wrt (\<ge>) ds \<Longrightarrow> mset ds = filter_mset (\<lambda>d. d \<noteq> 0) (mset es) \<Longrightarrow>
   valueOf b ds \<le> valueOf b es"
proof (induction es arbitrary: ds)
  case Nil
  then show ?case by simp
next
  case (Cons e es)
  have mono: "valueOf b es \<le> b * valueOf b es" using Cons.prems(1) by (cases b) simp_all
  show ?case
  proof (cases "e = 0")
    case True
    with Cons have "valueOf b ds \<le> valueOf b es" by simp
    also note mono
    finally show ?thesis using True by simp
  next
    case False
    with Cons.prems(3) have m: "mset ds = add_mset e (filter_mset (\<lambda>d. d \<noteq> 0) (mset es))"
      by simp
    then have "e \<in># mset ds" by simp
    then have e: "e \<in> set ds" by simp
    from m have "mset (remove1 e ds) = filter_mset (\<lambda>d. d \<noteq> 0) (mset es)" by simp
    moreover have "sorted_wrt (\<ge>) (remove1 e ds)" using Cons.prems(2) by (rule sorted_wrt_remove1)
    ultimately have "valueOf b (remove1 e ds) \<le> valueOf b es" using Cons.IH Cons.prems(1) by blast
    then have "b * valueOf b (remove1 e ds) \<le> b * valueOf b es" by (rule mult_le_mono2)
    then have "e + b * valueOf b (remove1 e ds) \<le> e + b * valueOf b es" by (rule add_left_mono)
    moreover have "valueOf b ds \<le> e + b * valueOf b (remove1 e ds)"
      using valueOf_move_front [OF Cons.prems(1) Cons.prems(2) e] by simp
    ultimately have "valueOf b ds \<le> e + b * valueOf b es" by (rule_tac order_trans)
    then show ?thesis by simp
  qed
qed

section \<open>The result of sortDigits on zeroed counters\<close>

lemma spread_cong: "(\<And>d. i \<le> d \<Longrightarrow> d < j \<Longrightarrow> c d = c' d) \<Longrightarrow> spread c i j = spread c' i j"
  unfolding spread_def by (rule arg_cong [where f = concat], rule map_cong) auto

lemma sortedDigits_range: "d \<in> set (sortedDigits b n) \<Longrightarrow> 0 < d \<and> d < b"
  using set_spread [of d "count_list (digitsOf b n)" 1 b] by (simp add: sortedDigits_def)

lemma sortedDigits_sorted: "sorted_wrt (\<ge>) (sortedDigits b n)"
proof -
  have "sorted_wrt (\<le>) (spread (count_list (digitsOf b n)) 1 b)"
    using sorted_spread [of "count_list (digitsOf b n)" 1 b] by simp
  then show ?thesis by (simp add: sortedDigits_def sorted_wrt_rev)
qed

lemma mset_sortedDigits:
  "mset (sortedDigits b n) = filter_mset (\<lambda>d. d \<noteq> 0) (mset (digitsOf b n))"
  unfolding sortedDigits_def mset_rev by (rule mset_spread_digits)

lemma valueOf_sortedDigits_le: "2 \<le> b \<Longrightarrow> valueOf b (sortedDigits b n) \<le> n"
proof -
  assume b: "2 \<le> b"
  then have "1 \<le> b" by simp
  then have "valueOf b (sortedDigits b n) \<le> valueOf b (digitsOf b n)"
    using sortedDigits_sorted mset_sortedDigits by (rule valueOf_minimal)
  with b show ?thesis by (simp add: valueOf_digitsOf)
qed

lemma sortDigits_value:
  assumes b: "2 \<le> b" and n: "n < 2 ^ 64"
  shows "sortDigits_zeroed b n = valueOf b (sortedDigits b n)"
proof -
  define h where "h = sortDigits_count b (replicate b 0) n"
  have "b - 1 \<le> length (replicate b (0::nat))" by simp
  from sortDigits_count_hist [OF b this, of n]
  have hj: "\<And>j. j < b \<Longrightarrow> h ! j = count_list (digitsOf b n) (j + 1)"
    by (simp add: h_def)
  have sp: "spread (\<lambda>d. h ! (d - 1)) 1 b = spread (count_list (digitsOf b n)) 1 b"
  proof (rule spread_cong)
    fix d :: nat
    assume "1 \<le> d" "d < b"
    then show "h ! (d - 1) = count_list (digitsOf b n) d" using hj [of "d - 1"] by simp
  qed
  have iv: "ifold b 0 (spread (count_list (digitsOf b n)) 1 b) = valueOf b (sortedDigits b n)"
    by (simp add: ifold_0 sortedDigits_def)
  have "valueOf b (sortedDigits b n) \<le> n" using b by (rule valueOf_sortedDigits_le)
  with n iv have lt: "ifold b 0 (spread (count_list (digitsOf b n)) 1 b) < 2 ^ 64" by simp
  have "1 \<le> b" using b by simp
  from wfold_ifold [OF this lt] sp iv show ?thesis
    by (simp add: sortDigits_zeroed_def sortDigits_from_def sortDigits_build_wfold h_def [symmetric])
qed

lemma sortDigits_le: "2 \<le> b \<Longrightarrow> n < 2 ^ 64 \<Longrightarrow> sortDigits_zeroed b n \<le> n"
  by (simp add: sortDigits_value valueOf_sortedDigits_le)

lemma digitsOf_sortDigits:
  "2 \<le> b \<Longrightarrow> n < 2 ^ 64 \<Longrightarrow> digitsOf b (sortDigits_zeroed b n) = sortedDigits b n"
  using sortedDigits_range [of _ b n] by (simp add: sortDigits_value digitsOf_valueOf)

lemma sq_sum_mset: "sq_sum ds = sum_mset (image_mset (\<lambda>d. d * d) (mset ds))"
  by (induction ds) (simp_all add: sq_sum_def)

lemma sum_mset_filter_nonzero:
  "sum_mset (image_mset (\<lambda>d::nat. d * d) (filter_mset (\<lambda>d. d \<noteq> 0) M)) = sum_mset (image_mset (\<lambda>d. d * d) M)"
  by (induction M) simp_all

lemma sq_sum_sortedDigits: "sq_sum (sortedDigits b n) = sq_sum (digitsOf b n)"
  unfolding sq_sum_mset mset_sortedDigits by (rule sum_mset_filter_nonzero)

lemma sumOfDigitSquares_sortDigits:
  assumes "2 \<le> b" "b < 256" "n < 2 ^ 64"
  shows "sumOfDigitSquares b (sortDigits_zeroed b n) = sumOfDigitSquares b n"
proof -
  have "sortDigits_zeroed b n \<le> n" using assms(1,3) by (rule sortDigits_le)
  with assms(3) have lt: "sortDigits_zeroed b n < 2 ^ 64" by simp
  show ?thesis
    using assms lt
    by (simp add: sumOfDigitSquares_digits digitsOf_sortDigits sq_sum_sortedDigits)
qed

lemma areDigitsSorted_sortDigits:
  "2 \<le> b \<Longrightarrow> n < 2 ^ 64 \<Longrightarrow> areDigitsSorted b (sortDigits_zeroed b n)"
  by (simp add: areDigitsSorted_digits digitsOf_sortDigits sortedDigits_sorted)

text \<open>A counter of \<^verbatim>\<open>sortDigits\<close> that starts at 0 stays within a \<^verbatim>\<open>char\<close>.\<close>

lemma sortDigits_count_small:
  assumes "2 \<le> b" "n < 2 ^ 64" "j < b"
  shows "sortDigits_count b (replicate b 0) n ! j \<le> 64"
proof -
  have "b - 1 \<le> length (replicate b (0::nat))" by simp
  from sortDigits_count_hist [OF assms(1) this, of n] assms(3)
  have "sortDigits_count b (replicate b 0) n ! j = count_list (digitsOf b n) (j + 1)" by simp
  also have "\<dots> \<le> length (digitsOf b n)" by (rule count_le_length)
  also have "\<dots> \<le> 64" using assms(1,2) by (rule length_digitsOf)
  finally show ?thesis .
qed

lemma filter_nonzero_id:
  "0 \<notin> set ds \<Longrightarrow> filter_mset (\<lambda>d::nat. d \<noteq> 0) (mset ds) = mset ds"
  by (induction ds) auto

section \<open>Evaluation on concrete inputs\<close>

lemma replicate_unfold: "replicate n x = (if n = 0 then [] else x # replicate (n - 1) x)"
  by (cases n) simp_all

lemma list_update_unfold: "(x # xs)[i := y] = (if i = 0 then y # xs else x # xs[i - 1 := y])"
  by (cases i) simp_all

lemmas digit_eval = sumOfDigitSquares.simps areDigitsSorted_def areDigitsSorted_loop.simps
  sortDigits_zeroed_def sortDigits_from_def sortDigits_count.simps sortDigits_build.simps sortDigits_emit.simps
  u64_def replicate_unfold list_update_unfold digitsOf.simps

section \<open>The result of the iteration in base 10\<close>

lemma classify_unfold:
  "classify sp k n =
     (if k = 0 then None else if n = 1 then Some True else if n = 4 then Some False
      else classify sp (k - 1) (childOf sp 10 n))"
  by (cases k) simp_all

lemma classify_sound: "classify sp k n = Some r \<Longrightarrow> classifies sp n r"
proof (induction k arbitrary: n)
  case 0
  then show ?case by simp
next
  case (Suc k)
  show ?case
  proof (cases "n = 1")
    case True
    with Suc.prems have "r = True" by simp
    with True show ?thesis using classifies.one by simp
  next
    case n1: False
    show ?thesis
    proof (cases "n = 4")
      case True
      with Suc.prems have "r = False" by simp
      with True show ?thesis using classifies.four by simp
    next
      case False
      with n1 Suc.prems have "classify sp k (childOf sp 10 n) = Some r" by simp
      then have "classifies sp (childOf sp 10 n) r" by (rule Suc.IH)
      with n1 False show ?thesis by (rule_tac classifies.step)
    qed
  qed
qed

lemmas classify_eval = classify_unfold childOf_def digit_eval

lemma all_less_unfold: "(\<forall>n<k::nat. P n) = (k = 0 \<or> (P (k - 1) \<and> (\<forall>n<k - 1. P n)))"
proof (cases k)
  case 0
  then show ?thesis by simp
next
  case (Suc j)
  then show ?thesis by (auto simp: less_Suc_eq)
qed

lemma classify_small: "\<forall>n<100. n = 0 \<or> classify False 15 n \<noteq> None"
  by (simp add: all_less_unfold classify_eval del: not_None_eq)

lemma sumOfDigitSquares_lt: "sumOfDigitSquares b n < 2 ^ 64"
  by (subst sumOfDigitSquares.simps) (simp add: u64_def)

lemma sq_sum_le_9: "sq_sum (digitsOf 10 q) \<le> 9 * q"
proof (induction q rule: less_induct)
  case (less q)
  show ?case
  proof (cases "q = 0")
    case True
    then show ?thesis by (simp add: sq_sum_def)
  next
    case False
    have d: "q mod 10 < 10" by simp
    then have "(q mod 10) * (q mod 10) \<le> 9 * (q mod 10)" by (intro mult_le_mono1) simp
    moreover have "sq_sum (digitsOf 10 (q div 10)) \<le> 9 * (q div 10)"
      using False by (intro less.IH) simp
    moreover have "sq_sum (digitsOf 10 q) = (q mod 10) * (q mod 10) + sq_sum (digitsOf 10 (q div 10))"
      using False by (simp add: digitsOf_step sq_sum_def)
    moreover have "q = 10 * (q div 10) + q mod 10" by simp
    ultimately show ?thesis by linarith
  qed
qed

lemma sq_sum_less:
  assumes "100 \<le> n"
  shows "sq_sum (digitsOf 10 n) < n"
proof -
  define d0 where "d0 = n mod 10"
  define m where "m = n div 10"
  define d1 where "d1 = m mod 10"
  define q where "q = m div 10"
  have n: "n = 10 * m + d0" and m: "m = 10 * q + d1" by (simp_all add: d0_def m_def d1_def q_def)
  have d: "d0 < 10" "d1 < 10" by (simp_all add: d0_def d1_def)
  from assms n d have m0: "0 < m" by linarith
  from assms n m d have q0: "1 \<le> q" by linarith
  have s: "sq_sum (digitsOf 10 n) = d0 * d0 + (d1 * d1 + sq_sum (digitsOf 10 q))"
    using assms m0 by (simp add: digitsOf_step [of 10 n] digitsOf_step [of 10 m] sq_sum_def
        d0_def [symmetric] m_def [symmetric] d1_def [symmetric] q_def [symmetric])
  have "d0 * d0 \<le> 9 * 9" using d by (intro mult_le_mono) simp_all
  moreover have "d1 * d1 \<le> 9 * d1" using d by (intro mult_le_mono1) simp
  moreover have "sq_sum (digitsOf 10 q) \<le> 9 * q" by (rule sq_sum_le_9)
  ultimately show ?thesis using s n m q0 by linarith
qed

lemma sq_sum_pos: "2 \<le> b \<Longrightarrow> 0 < n \<Longrightarrow> 0 < sq_sum (digitsOf b n)"
proof (induction n rule: less_induct)
  case (less n)
  have s: "sq_sum (digitsOf b n) = (n mod b) * (n mod b) + sq_sum (digitsOf b (n div b))"
    using less.prems by (simp add: digitsOf_step sq_sum_def)
  show ?case
  proof (cases "n mod b = 0")
    case True
    then have "n = b * (n div b)" by auto
    with less.prems have "0 < n div b" by (cases "n div b") auto
    moreover have "n div b < n" using less.prems by simp
    ultimately have "0 < sq_sum (digitsOf b (n div b))" using less.IH less.prems(1) by blast
    with s show ?thesis by simp
  next
    case False
    with s show ?thesis by simp
  qed
qed

lemma sumOfDigitSquares_10:
  "n < 2 ^ 64 \<Longrightarrow> sumOfDigitSquares 10 n = sq_sum (digitsOf 10 n)"
  by (rule sumOfDigitSquares_digits) simp_all

lemma classifies_total: "1 \<le> n \<Longrightarrow> n < 2 ^ 64 \<Longrightarrow> \<exists>r. classifies False n r"
proof (induction n rule: less_induct)
  case (less n)
  show ?case
  proof (cases "n < 100")
    case True
    with less.prems classify_small have "classify False 15 n \<noteq> None" by auto
    then obtain r where "classify False 15 n = Some r" by blast
    then have "classifies False n r" by (rule classify_sound)
    then show ?thesis ..
  next
    case False
    define m where "m = childOf False 10 n"
    have m: "m = sq_sum (digitsOf 10 n)"
      using less.prems by (simp add: m_def childOf_def sumOfDigitSquares_10)
    have "m < n" using False m sq_sum_less [of n] by simp
    moreover have "1 \<le> m" using less.prems m sq_sum_pos [of 10 n] by simp
    moreover have "m < 2 ^ 64" using \<open>m < n\<close> less.prems by simp
    ultimately obtain r where "classifies False m r" using less.IH by blast
    moreover have "n \<noteq> 1" "n \<noteq> 4" using False by simp_all
    ultimately have "classifies False n r" unfolding m_def by (rule_tac classifies.step)
    then show ?thesis ..
  qed
qed

lemma classifies_1: "classifies sp 1 r \<Longrightarrow> r = True"
  by (erule classifies.cases) simp_all

lemma classifies_4: "classifies sp 4 r \<Longrightarrow> r = False"
  by (erule classifies.cases) simp_all

lemma classifies_step: "classifies sp n r \<Longrightarrow> n \<noteq> 1 \<Longrightarrow> n \<noteq> 4 \<Longrightarrow> classifies sp (childOf sp 10 n) r"
  by (erule classifies.cases) simp_all

lemma classifies_deterministic: "classifies sp n r \<Longrightarrow> classifies sp n r' \<Longrightarrow> r = r'"
proof (induction rule: classifies.induct)
  case one
  then have "r' = True" by (rule classifies_1)
  then show ?case by simp
next
  case four
  then have "r' = False" by (rule classifies_4)
  then show ?case by simp
next
  case (step n r)
  from step.prems step.hyps(1,2) have "classifies sp (childOf sp 10 n) r'" by (rule classifies_step)
  then show ?case by (rule step.IH)
qed

lemma classifies_16: "classifies True 16 False"
proof -
  have "classify True 12 16 = Some False" by (simp add: classify_eval)
  then show ?thesis by (rule classify_sound)
qed

lemma childOf_sortDigits:
  "x < 2 ^ 64 \<Longrightarrow> childOf True 10 (sortDigits_zeroed 10 x) = childOf True 10 x"
  by (simp add: childOf_def sumOfDigitSquares_sortDigits)

lemma classifies_sortDigits:
  assumes c: "classifies True x r" and x: "x < 2 ^ 64"
  shows "classifies True (sortDigits_zeroed 10 x) r"
proof (cases "x = 1 \<or> x = 4")
  case True
  have "sortDigits_zeroed 10 1 = 1" "sortDigits_zeroed 10 4 = 4" by (simp_all add: digit_eval)
  with True c show ?thesis by auto
next
  case False
  then have ch: "classifies True (childOf True 10 x) r" using c by (simp add: classifies_step)
  show ?thesis
  proof (cases "sortDigits_zeroed 10 x = 1")
    case True
    have "childOf True 10 (sortDigits_zeroed 10 x) = 1" unfolding True by (simp add: classify_eval)
    with ch x have "classifies True 1 r" by (simp add: childOf_sortDigits)
    then have "r = True" by (rule classifies_1)
    with True show ?thesis using classifies.one [of True] by simp
  next
    case s1: False
    show ?thesis
    proof (cases "sortDigits_zeroed 10 x = 4")
      case True
      have "childOf True 10 (sortDigits_zeroed 10 x) = 16" unfolding True by (simp add: classify_eval)
      with ch x have "classifies True 16 r" by (simp add: childOf_sortDigits)
      then have "r = False" using classifies_16 by (rule classifies_deterministic)
      with True show ?thesis using classifies.four [of True] by simp
    next
      case False
      from ch x have "classifies True (childOf True 10 (sortDigits_zeroed 10 x)) r"
        by (simp add: childOf_sortDigits)
      with s1 False show ?thesis by (rule_tac classifies.step)
    qed
  qed
qed

lemma classifies_skip: "classifies False n r \<Longrightarrow> classifies True n r"
proof (induction rule: classifies.induct)
  case one
  show ?case by (rule classifies.one)
next
  case four
  show ?case by (rule classifies.four)
next
  case (step n r)
  have lt: "sumOfDigitSquares 10 n < 2 ^ 64" by (rule sumOfDigitSquares_lt)
  from step.IH have "classifies True (sumOfDigitSquares 10 n) r" by (simp add: childOf_def)
  then have "classifies True (sortDigits_zeroed 10 (sumOfDigitSquares 10 n)) r"
    using lt by (rule classifies_sortDigits)
  then have "classifies True (childOf True 10 n) r" by (simp add: childOf_def)
  with step.hyps(1,2) show ?case by (rule_tac classifies.step)
qed

lemma classifies_any: "classifies False n r \<Longrightarrow> classifies sp n r"
  by (cases sp) (simp_all add: classifies_skip)

section \<open>Classification computes the result of the iteration\<close>

lemmas calc_eval = newHnCalculator_def isCached_def newResult_def emplace_def Let_def
  getNextNumber_def getNextNumber_loop.simps announce_def sortDigits_def zeroes_def
  every_array_def first_array_def

lemma isHappy_unfold:
  "isHappy c n =
     (if isCached c n then Some (the (cache c n), c)
      else if n = 1 then Some (True, c)
      else if n = 4 then Some (False, c)
      else Option.bind (isHappy (snd (childCall c n)) (fst (childCall c n)))
             (\<lambda>(happy, c'). Some (happy, newResult c' n happy)))"
  by (subst isHappy.simps) (simp add: childCall_def sortDigits_def Let_def)

lemma childCall_frame:
  "same_settings c (snd (childCall c n))" "cache (snd (childCall c n)) = cache c"
  "fresh (snd (childCall c n)) = fresh c" "printed (snd (childCall c n)) = printed c"
  by (simp_all add: childCall_def sortDigits_def same_settings_def Let_def)

lemma childCall_zeroed:
  "skipPermutations c \<longrightarrow> zeroed c \<Longrightarrow>
   fst (childCall c n) = childOf (skipPermutations c) (base c) n"
  by (simp add: childCall_def childOf_def sortDigits_def sortDigits_zeroed_def zeroed_def Let_def)

lemma childCall_noskip:
  "\<not> skipPermutations c \<Longrightarrow> childCall c n = (sumOfDigitSquares (base c) n, c)"
  by (simp add: childCall_def Let_def)

lemma fresh_newResult: "fresh (newResult c n happy) = fresh c"
  by (simp add: newResult_def Let_def)

lemma same_settings_refl: "same_settings c c"
  by (simp add: same_settings_def)

lemma same_settings_trans: "same_settings c c' \<Longrightarrow> same_settings c' c'' \<Longrightarrow> same_settings c c''"
  by (simp add: same_settings_def)

lemma same_settings_newResult: "same_settings c (newResult c n happy)"
  by (simp add: same_settings_def newResult_def Let_def)

lemma cache_newResult:
  "cache (newResult c n happy) = (if cacheResults c then emplace (cache c) n happy else cache c)"
  by (simp add: newResult_def Let_def)

lemma emplace_Some: "emplace m n happy k = Some v \<Longrightarrow> m k = Some v \<or> (k = n \<and> v = happy)"
  by (auto simp: emplace_def split: if_splits)

lemma cache_sound_newResult:
  assumes "cache_sound c" "classifies (skipPermutations c) n happy"
  shows "cache_sound (newResult c n happy)"
proof -
  have sp: "skipPermutations (newResult c n happy) = skipPermutations c"
    using same_settings_newResult [of c n happy] by (simp add: same_settings_def)
  show ?thesis
    unfolding cache_sound_def sp
  proof (intro allI impI)
    fix k v
    assume "cache (newResult c n happy) k = Some v"
    then have "cache c k = Some v \<or> (k = n \<and> v = happy)"
      by (auto simp: cache_newResult dest: emplace_Some split: if_splits)
    with assms show "classifies (skipPermutations c) k v" by (auto simp: cache_sound_def)
  qed
qed

lemma isHappy_cached:
  assumes "isCached c n" "classifies (skipPermutations c) n r"
  shows "isHappy c n = Some (the (cache c n), c) \<and> (cache_sound c \<longrightarrow> the (cache c n) = r)"
proof -
  from assms(1) obtain v where v: "cache c n = Some v"
    by (auto simp: isCached_def split: if_splits)
  have "v = r" if "cache_sound c"
  proof -
    from that v have "classifies (skipPermutations c) n v" by (simp add: cache_sound_def)
    then show ?thesis using assms(2) by (rule classifies_deterministic)
  qed
  with assms(1) v show ?thesis by (subst isHappy_unfold) simp
qed

lemma isHappy_classifies:
  assumes "classifies sp n r" "skipPermutations c = sp" "base c = 10" "sp \<longrightarrow> zeroed c"
  shows "\<exists>r' c'. isHappy c n = Some (r', c') \<and> same_settings c c' \<and> fresh c' = fresh c \<and>
           (cache_sound c \<longrightarrow> r' = r \<and> cache_sound c')"
  using assms
proof (induction arbitrary: c rule: classifies.induct)
  case one
  show ?case
  proof (cases "isCached c 1")
    case True
    from isHappy_cached [OF True, of True] one classifies.one [of sp]
    show ?thesis by (auto simp: same_settings_refl)
  next
    case False
    then have "isHappy c 1 = Some (True, c)" by (subst isHappy_unfold) simp
    then show ?thesis using same_settings_refl [of c] by blast
  qed
next
  case four
  show ?case
  proof (cases "isCached c 4")
    case True
    from isHappy_cached [OF True, of False] four classifies.four [of sp]
    show ?thesis by (auto simp: same_settings_refl)
  next
    case False
    then have "isHappy c 4 = Some (False, c)" by (subst isHappy_unfold) simp
    then show ?thesis using same_settings_refl [of c] by blast
  qed
next
  case (step n r)
  have cl: "classifies sp n r" using step.hyps by (rule classifies.step)
  show ?case
  proof (cases "isCached c n")
    case True
    from isHappy_cached [OF True, of r] cl step.prems
    show ?thesis by (auto simp: same_settings_refl)
  next
    case False
    define c0 where "c0 = snd (childCall c n)"
    have ss0: "same_settings c c0" and ca0: "cache c0 = cache c" and fr0: "fresh c0 = fresh c"
      unfolding c0_def by (rule childCall_frame)+
    have ch: "fst (childCall c n) = childOf sp 10 n"
      using childCall_zeroed [of c n] step.prems by simp
    have p0: "skipPermutations c0 = sp" "base c0 = 10"
      using ss0 step.prems by (simp_all add: same_settings_def)
    have z0: "sp \<longrightarrow> zeroed c0" using step.prems(3) p0(2) step.prems(2) fr0
      by (simp add: zeroed_def)
    have so: "cache_sound c0 = cache_sound c"
      using ca0 p0(1) step.prems(1) by (simp add: cache_sound_def)
    from step.IH [OF p0 z0] obtain r' c1 where
      rec: "isHappy c0 (childOf sp 10 n) = Some (r', c1)" and ss1: "same_settings c0 c1"
      and fr1: "fresh c1 = fresh c0"
      and snd: "cache_sound c \<longrightarrow> r' = r \<and> cache_sound c1" unfolding so by blast
    have ss: "same_settings c c1" using ss0 ss1 by (rule same_settings_trans)
    have res: "isHappy c n = Some (r', newResult c1 n r')"
      using False step.hyps(1,2) rec ch by (subst isHappy_unfold) (simp add: c0_def)
    have ss': "same_settings c (newResult c1 n r')"
      using ss same_settings_newResult by (rule same_settings_trans)
    have fr': "fresh (newResult c1 n r') = fresh c"
      using fr0 fr1 by (simp add: fresh_newResult)
    have "r' = r \<and> cache_sound (newResult c1 n r')" if "cache_sound c"
    proof -
      from that snd have r: "r' = r" and s1: "cache_sound c1" by simp_all
      have "skipPermutations c1 = sp" using ss step.prems by (simp add: same_settings_def)
      with cl have "classifies (skipPermutations c1) n r" by simp
      with s1 have "cache_sound (newResult c1 n r)" by (rule cache_sound_newResult)
      with r show ?thesis by simp
    qed
    with res ss' fr' show ?thesis by blast
  qed
qed

lemma cache_sound_new: "cache_sound (newHnCalculator cr sp b h)"
  using classifies.one [of sp] classifies.four [of sp]
  by (auto simp: cache_sound_def newHnCalculator_def split: if_splits)

lemma classifies_reaches:
  "classifies sp n r \<Longrightarrow> \<exists>k. (childOf sp 10 ^^ k) n = (if r then 1 else 4)"
proof (induction rule: classifies.induct)
  case one
  have "(childOf sp 10 ^^ 0) 1 = 1" by simp
  then show ?case by (intro exI [of _ 0]) simp
next
  case four
  have "(childOf sp 10 ^^ 0) 4 = 4" by simp
  then show ?case by (intro exI [of _ 0]) simp
next
  case (step n r)
  then obtain k where "(childOf sp 10 ^^ k) (childOf sp 10 n) = (if r then 1 else 4)" by blast
  then have "(childOf sp 10 ^^ Suc k) n = (if r then 1 else 4)" by (simp add: funpow_swap1)
  then show ?case by (rule exI)
qed

lemma classifies_exists: "1 \<le> n \<Longrightarrow> n < 2 ^ 64 \<Longrightarrow> \<exists>r. classifies sp n r"
  using classifies_total [of n] classifies_any [of n _ sp] by blast

lemma zeroed_new: "zeroed (newHnCalculator cr sp b (zeroes b))"
  by (simp add: zeroed_def zeroes_def newHnCalculator_def)

lemma isHappy_new:
  assumes "classifies False n r" "sp \<longrightarrow> zeroed (newHnCalculator cr sp 10 h)"
  shows "\<exists>c'. isHappy (newHnCalculator cr sp 10 h) n = Some (r, c')"
proof -
  have r: "classifies sp n r" using assms(1) by (rule classifies_any)
  have "skipPermutations (newHnCalculator cr sp 10 h) = sp"
    "base (newHnCalculator cr sp 10 h) = 10"
    by (simp_all add: newHnCalculator_def)
  from isHappy_classifies [OF r this assms(2)] cache_sound_new [of cr sp 10 h]
  show ?thesis by blast
qed

lemma classify_known:
  "classify False 15 1 = Some True" "classify False 15 7 = Some True"
  "classify False 15 19 = Some True" "classify False 15 4 = Some False"
  "classify False 15 2 = Some False" "classify False 15 89 = Some False"
  by (simp_all add: classify_eval)

lemma isHappy_happy:
  assumes "base c = 10" "cache_sound c" "1 \<le> n" "n < 2 ^ 64" "skipPermutations c \<longrightarrow> zeroed c"
  shows "\<exists>c'. isHappy c n = Some (classifies False n True, c') \<and> base c' = 10 \<and>
           skipPermutations c' = skipPermutations c \<and> cache_sound c' \<and> fresh c' = fresh c"
proof -
  from assms(3,4) obtain r where r: "classifies False n r" using classifies_total by blast
  have "r = classifies False n True"
  proof (cases r)
    case True
    with r show ?thesis by simp
  next
    case False
    have "\<not> classifies False n True"
    proof
      assume "classifies False n True"
      then have "True = r" using r by (rule classifies_deterministic)
      with False show False by simp
    qed
    with False show ?thesis by simp
  qed
  moreover from r have "classifies (skipPermutations c) n r" by (rule classifies_any)
  from isHappy_classifies [OF this refl assms(1,5)] assms(1,2)
  have "\<exists>c'. isHappy c n = Some (r, c') \<and> base c' = 10 \<and>
           skipPermutations c' = skipPermutations c \<and> cache_sound c' \<and> fresh c' = fresh c"
    by (auto simp: same_settings_def)
  ultimately show ?thesis by simp
qed

lemma isHappy_all_happy:
  "\<forall>m \<in> set ns. 1 \<le> m \<and> m < 2 ^ 64 \<Longrightarrow> base c = 10 \<Longrightarrow> cache_sound c \<Longrightarrow>
   skipPermutations c \<longrightarrow> zeroed c \<Longrightarrow>
   \<exists>c'. isHappy_all c ns = Some (map (\<lambda>m. classifies False m True) ns, c') \<and> base c' = 10 \<and>
        skipPermutations c' = skipPermutations c \<and> cache_sound c' \<and> fresh c' = fresh c"
proof (induction ns arbitrary: c)
  case Nil
  then show ?case by simp
next
  case (Cons n ns)
  from Cons.prems have n: "1 \<le> n" "n < 2 ^ 64" by simp_all
  from isHappy_happy [OF Cons.prems(2,3) n Cons.prems(4)] obtain c1 where
    c1: "isHappy c n = Some (classifies False n True, c1)" "base c1 = 10"
      "skipPermutations c1 = skipPermutations c" "cache_sound c1" "fresh c1 = fresh c" by blast
  from Cons.prems(1) have "\<forall>m \<in> set ns. 1 \<le> m \<and> m < 2 ^ 64" by simp
  moreover have "skipPermutations c1 \<longrightarrow> zeroed c1"
    using Cons.prems(2,4) c1(2,3,5) by (simp add: zeroed_def)
  ultimately obtain c2 where
    c2: "isHappy_all c1 ns = Some (map (\<lambda>m. classifies False m True) ns, c2)" "base c2 = 10"
      "skipPermutations c2 = skipPermutations c1" "cache_sound c2" "fresh c2 = fresh c1"
    using Cons.IH [OF _ c1(2) c1(4)] by blast
  from c1 c2 show ?case by simp
qed

lemma isHappy_returns:
  assumes "base c = 10" "1 \<le> n" "n < 2 ^ 64" "skipPermutations c \<longrightarrow> zeroed c"
  shows "\<exists>happy c'. isHappy c n = Some (happy, c')"
proof -
  from assms(2,3) obtain r where r: "classifies (skipPermutations c) n r"
    using classifies_exists by blast
  from isHappy_classifies [OF r refl assms(1,4)] show ?thesis by blast
qed

section \<open>Calls of getNextNumber\<close>

lemma announce_frame:
  "cacheResults (announce c i) = cacheResults c" "skipPermutations (announce c i) = skipPermutations c"
  "base (announce c i) = base c" "stopAt (announce c i) = stopAt c"
  "outputResults (announce c i) = outputResults c" "milestoneInc (announce c i) = milestoneInc c"
  "cache (announce c i) = cache c" "nextNumber (announce c i) = nextNumber c"
  by (simp_all add: announce_def split: option.splits)

lemma getNextNumber_loop_found:
  "\<not> skipPermutations c \<or> areDigitsSorted (base c) i \<Longrightarrow>
   getNextNumber_loop c i = (i, (announce c i)\<lparr>nextNumber := u64 (i + 1)\<rparr>)"
  by (subst getNextNumber_loop.simps) simp

lemma getNextNumber_loop_skip:
  "skipPermutations c \<Longrightarrow> \<not> areDigitsSorted (base c) i \<Longrightarrow>
   getNextNumber_loop c i = getNextNumber_loop c (u64 (i + 1))"
  by (subst getNextNumber_loop.simps) simp

lemma getNextNumber_loop_least:
  assumes "skipPermutations c" "areDigitsSorted (base c) m" "m < 2 ^ 64"
    and "\<forall>j. i \<le> j \<and> j < m \<longrightarrow> \<not> areDigitsSorted (base c) j" "i \<le> m"
  shows "getNextNumber_loop c i = (m, (announce c m)\<lparr>nextNumber := u64 (m + 1)\<rparr>)"
  using assms(4,5)
proof (induction "m - i" arbitrary: i)
  case 0
  then have "i = m" by simp
  with assms(2) show ?case by (simp add: getNextNumber_loop_found)
next
  case (Suc d)
  then have lt: "i < m" by simp
  with Suc.prems have ns: "\<not> areDigitsSorted (base c) i" by simp
  from lt assms(3) have "u64 (i + 1) = i + 1" by (simp add: u64_def)
  with assms(1) ns have "getNextNumber_loop c i = getNextNumber_loop c (i + 1)"
    by (simp add: getNextNumber_loop_skip)
  moreover have "getNextNumber_loop c (i + 1) = (m, (announce c m)\<lparr>nextNumber := u64 (m + 1)\<rparr>)"
  proof (rule Suc.hyps(1))
    show "d = m - (i + 1)" using Suc.hyps(2) by simp
    show "\<forall>j. i + 1 \<le> j \<and> j < m \<longrightarrow> \<not> areDigitsSorted (base c) j" using Suc.prems(1) by simp
    show "i + 1 \<le> m" using lt by simp
  qed
  ultimately show ?case by simp
qed

lemma getNextNumber_skip:
  assumes "skipPermutations c" "areDigitsSorted (base c) m" "m < 2 ^ 64" "nextNumber c \<le> m"
  shows "\<exists>x c1. getNextNumber c = (x, c1) \<and> nextNumber c \<le> x \<and> x \<le> m \<and>
           areDigitsSorted (base c) x \<and>
           (\<forall>j. nextNumber c \<le> j \<and> j < x \<longrightarrow> \<not> areDigitsSorted (base c) j) \<and>
           skipPermutations c1 \<and> base c1 = base c \<and> nextNumber c1 = u64 (x + 1)"
proof -
  define P where "P x \<longleftrightarrow> nextNumber c \<le> x \<and> areDigitsSorted (base c) x" for x
  define x where "x = (LEAST x. P x)"
  have Pm: "P m" using assms by (simp add: P_def)
  then have Px: "P x" unfolding x_def by (rule LeastI)
  have xm: "x \<le> m" unfolding x_def using Pm by (rule Least_le)
  have least: "\<forall>j. nextNumber c \<le> j \<and> j < x \<longrightarrow> \<not> areDigitsSorted (base c) j"
  proof (intro allI impI)
    fix j
    assume j: "nextNumber c \<le> j \<and> j < x"
    then have "\<not> P j" unfolding x_def using not_less_Least by blast
    with j show "\<not> areDigitsSorted (base c) j" by (simp add: P_def)
  qed
  from Px have s: "areDigitsSorted (base c) x" and le: "nextNumber c \<le> x" by (simp_all add: P_def)
  from xm assms(3) have lt: "x < 2 ^ 64" by simp
  have "getNextNumber c = (x, (announce c x)\<lparr>nextNumber := u64 (x + 1)\<rparr>)"
    unfolding getNextNumber_def using assms(1) s lt least le by (rule getNextNumber_loop_least)
  with s le xm least assms(1) show ?thesis by (simp add: announce_frame)
qed

lemma filter_upt_first:
  assumes "i \<le> x" "x < B" "P x" "\<forall>j. i \<le> j \<and> j < x \<longrightarrow> \<not> P j"
  shows "filter P [i..<B] = x # filter P [x + 1..<B]"
proof -
  have "[i..<B] = [i..<x] @ x # [x + 1..<B]"
    using assms(1,2) by (metis Suc_eq_plus1 le_add_diff_inverse less_imp_le_nat upt_add_eq_append upt_conv_Cons)
  moreover have "filter P [i..<x] = []" using assms(4) by (auto simp: filter_empty_conv)
  ultimately show ?thesis using assms(3) by simp
qed

lemma filter_upt_none:
  assumes "\<forall>j. i \<le> j \<and> j < B \<longrightarrow> \<not> P j"
  shows "filter P [i..<B] = []"
  using assms by (auto simp: filter_empty_conv)

lemma getNextNumbers_skip:
  assumes "skipPermutations c" "areDigitsSorted (base c) m" "m < 2 ^ 64" "B \<le> m"
    "nextNumber c \<le> m" "length (filter (areDigitsSorted (base c)) [nextNumber c..<B]) \<le> k"
  shows "takeWhile (\<lambda>x. x < B) (fst (getNextNumbers k c)) =
         filter (areDigitsSorted (base c)) [nextNumber c..<B]"
  using assms
proof (induction "B - nextNumber c" arbitrary: c k rule: less_induct)
  case less
  show ?case
  proof (cases k)
    case 0
    with less.prems(6) show ?thesis by simp
  next
    case (Suc k')
    from getNextNumber_skip [OF less.prems(1,2,3,5)] obtain x c1 where
      g: "getNextNumber c = (x, c1)" and x: "nextNumber c \<le> x" "x \<le> m"
        "areDigitsSorted (base c) x"
        "\<forall>j. nextNumber c \<le> j \<and> j < x \<longrightarrow> \<not> areDigitsSorted (base c) j"
      and c1: "skipPermutations c1" "base c1 = base c" "nextNumber c1 = u64 (x + 1)" by blast
    obtain ns c2 where r: "getNextNumbers k' c1 = (ns, c2)" by (cases "getNextNumbers k' c1")
    have unf: "fst (getNextNumbers k c) = x # fst (getNextNumbers k' c1)"
      using Suc g r by simp
    show ?thesis
    proof (cases "x < B")
      case False
      then have "\<forall>j. nextNumber c \<le> j \<and> j < B \<longrightarrow> \<not> areDigitsSorted (base c) j"
        using x(4) by auto
      then have "filter (areDigitsSorted (base c)) [nextNumber c..<B] = []" by (rule filter_upt_none)
      with False unf show ?thesis by simp
    next
      case True
      have f: "filter (areDigitsSorted (base c)) [nextNumber c..<B] =
            x # filter (areDigitsSorted (base c)) [x + 1..<B]"
        using x(1) True x(3,4) by (rule filter_upt_first)
      from True less.prems(3,4) have "x + 1 < 2 ^ 64" by simp
      then have n1: "nextNumber c1 = x + 1" using c1(3) by (simp add: u64_def)
      have "takeWhile (\<lambda>x. x < B) (fst (getNextNumbers k' c1)) =
            filter (areDigitsSorted (base c1)) [nextNumber c1..<B]"
      proof (rule less.hyps)
        show "B - nextNumber c1 < B - nextNumber c" using n1 x(1) True by simp
        show "skipPermutations c1" by (rule c1(1))
        show "areDigitsSorted (base c1) m" using less.prems(2) c1(2) by simp
        show "m < 2 ^ 64" by (rule less.prems(3))
        show "B \<le> m" by (rule less.prems(4))
        show "nextNumber c1 \<le> m" using n1 True less.prems(4) by simp
        show "length (filter (areDigitsSorted (base c1)) [nextNumber c1..<B]) \<le> k'"
          using less.prems(6) f Suc n1 c1(2) by simp
      qed
      with unf True f n1 c1(2) show ?thesis by simp
    qed
  qed
qed

lemma getNextNumbers_unfold:
  "getNextNumbers k c =
     (if k = 0 then ([], c)
      else case getNextNumber c of (i, c1) \<Rightarrow>
             case getNextNumbers (k - 1) c1 of (ns, c2) \<Rightarrow> (i # ns, c2))"
  by (cases k) simp_all

lemmas cursor_eval = getNextNumber_def getNextNumber_loop.simps announce_def u64_def
  newHnCalculator_def areDigitsSorted_def areDigitsSorted_loop.simps upt_rec

text \<open>
  In base 10 the bounds covered by \<open>getNextNumbers_skip\<close> are those up to
  17999999999999999999: it has sorted digits and is a 64-bit number.
\<close>

lemma areDigitsSorted_top_10:
  "areDigitsSorted 10 17999999999999999999 \<and> (17999999999999999999::nat) < 2 ^ 64"
  by (simp add: areDigitsSorted_def areDigitsSorted_loop.simps)

section \<open>Milestones\<close>

lemma getNextNumber_noskip:
  "\<not> skipPermutations c \<Longrightarrow>
   getNextNumber c = (nextNumber c, (announce c (nextNumber c))\<lparr>nextNumber := u64 (nextNumber c + 1)\<rparr>)"
  by (simp add: getNextNumber_def getNextNumber_loop_found)

lemma milestonesOf_append: "milestonesOf (es @ fs) = milestonesOf es @ milestonesOf fs"
  by (induction es rule: milestonesOf.induct) simp_all

lemma div_step:
  assumes "1 \<le> M"
  shows "(k::nat) div M = (if (k - 1) div M * M + M < k + 1 then (k - 1) div M + 1 else (k - 1) div M)"
proof (cases k)
  case 0
  with assms show ?thesis by simp
next
  case (Suc j)
  define q where "q = j div M"
  define r where "r = j mod M"
  have j: "j = q * M + r" by (simp add: q_def r_def)
  have r: "r < M" using assms by (simp add: r_def)
  show ?thesis
  proof (cases "r + 1 = M")
    case True
    then have "Suc j = (q + 1) * M" using j by simp
    moreover have "(q + 1) * M div M = q + 1" using assms by simp
    ultimately have "Suc j div M = q + 1" by (simp only:)
    moreover have "q * M + M < Suc j + 1" using j True by simp
    ultimately show ?thesis using Suc by (simp add: q_def)
  next
    case False
    with r have r1: "r + 1 < M" by simp
    have M0: "M \<noteq> 0" using assms by simp
    have "(q * M + (r + 1)) div M = q + (r + 1) div M" using M0 by (rule div_mult_self3)
    moreover have "(r + 1) div M = 0" using r1 by (rule div_less)
    moreover have "Suc j = q * M + (r + 1)" using j by simp
    ultimately have "Suc j div M = q" by (simp only: add_0_right)
    moreover have "\<not> q * M + M < Suc j + 1" using j r1 by simp
    ultimately show ?thesis using Suc by (simp add: q_def)
  qed
qed

lemma milestone_step:
  assumes "milestone_state M k c" "1 \<le> M" "k + 1 + M < 2 ^ 64"
  shows "\<exists>c1. getNextNumber c = (k + 1, c1) \<and> milestone_state M (k + 1) c1"
proof -
  define q where "q = (k - 1) div M"
  from assms(1) have ns: "\<not> skipPermutations c" and mi: "milestoneInc c = Some M"
    and nn: "nextNumber c = k + 1" and lm: "lastMilestone c = q * M"
    and ms: "milestonesOf (printed c) = map (\<lambda>j. j * M) [1..<Suc q]"
    by (simp_all add: milestone_state_def q_def)
  have "q * M \<le> k - 1" by (simp add: q_def)
  with assms(2,3) have b1: "q * M + M < 2 ^ 64" by simp
  from assms(2,3) have b2: "k + 1 + 1 < 2 ^ 64" by simp
  have u1: "u64 (q * M + M) = q * M + M" using b1 by (simp add: u64_def)
  have u2: "u64 (k + 1 + 1) = k + 1 + 1" using b2 by (simp add: u64_def)
  define c1 where "c1 = (announce c (k + 1))\<lparr>nextNumber := u64 (k + 1 + 1)\<rparr>"
  have g: "getNextNumber c = (k + 1, c1)" using ns nn by (simp add: getNextNumber_noskip c1_def)
  have d: "k div M = (if q * M + M < k + 1 then q + 1 else q)"
    using div_step [OF assms(2), of k] by (simp add: q_def)
  have "milestone_state M (k + 1) c1"
  proof (cases "q * M + M < k + 1")
    case True
    with d have kd: "k div M = q + 1" by simp
    have "[1..<Suc (q + 1)] = [1..<Suc q] @ [q + 1]" by simp
    then have "map (\<lambda>j. j * M) [1..<Suc (q + 1)] = map (\<lambda>j. j * M) [1..<Suc q] @ [q * M + M]"
      by simp
    with True show ?thesis
      using ns mi lm ms u1 u2 kd
      by (simp add: milestone_state_def c1_def announce_def milestonesOf_append)
  next
    case False
    with d have kd: "k div M = q" by simp
    from False show ?thesis
      using ns mi lm ms u1 u2 kd
      by (simp add: milestone_state_def c1_def announce_def)
  qed
  with g show ?thesis by blast
qed

lemma milestone_run:
  "milestone_state M j c \<Longrightarrow> 1 \<le> M \<Longrightarrow> j + k + M < 2 ^ 64 \<Longrightarrow>
   \<exists>c'. getNextNumbers k c = ([j + 1..<j + k + 1], c') \<and> milestone_state M (j + k) c'"
proof (induction k arbitrary: j c)
  case 0
  then show ?case by simp
next
  case (Suc k)
  from Suc.prems have "j + 1 + M < 2 ^ 64" by simp
  from milestone_step [OF Suc.prems(1,2) this] obtain c1 where
    c1: "getNextNumber c = (j + 1, c1)" "milestone_state M (j + 1) c1" by blast
  from Suc.prems have "j + 1 + k + M < 2 ^ 64" by simp
  from Suc.IH [OF c1(2) Suc.prems(2) this] obtain c' where
    c': "getNextNumbers k c1 = ([j + 1 + 1..<j + 1 + k + 1], c')" "milestone_state M (j + 1 + k) c'"
    by blast
  have "[j + 1..<j + Suc k + 1] = (j + 1) # [j + 1 + 1..<j + 1 + k + 1]"
    by (simp add: upt_conv_Cons)
  with c1 c' show ?case by simp
qed

lemma getNextNumber_loop_result:
  "\<exists>x. getNextNumber_loop c i = (x, (announce c x)\<lparr>nextNumber := u64 (x + 1)\<rparr>)"
proof (induction c i rule: getNextNumber_loop.induct)
  case (1 c i)
  show ?case
  proof (cases "\<not> skipPermutations c \<or> areDigitsSorted (base c) i")
    case True
    then show ?thesis by (simp add: getNextNumber_loop_found)
  next
    case False
    then have "getNextNumber_loop c i = getNextNumber_loop c (u64 (i + 1))"
      by (simp add: getNextNumber_loop_skip)
    with False "1.IH" show ?thesis by simp
  qed
qed

lemma getNextNumber_result:
  "\<exists>x. getNextNumber c = (x, (announce c x)\<lparr>nextNumber := u64 (x + 1)\<rparr>)"
  unfolding getNextNumber_def by (rule getNextNumber_loop_result)

lemma milestone_chain_announce:
  assumes "milestone_chain M j c" "x + M < 2 ^ 64"
  shows "\<exists>j'. milestone_chain M j' ((announce c x)\<lparr>nextNumber := n\<rparr>)"
proof -
  from assms(1) have mi: "milestoneInc c = Some M" and lm: "lastMilestone c = j * M"
    and b: "j * M + M < 2 ^ 64"
    and ms: "milestonesOf (printed c) = map (\<lambda>i. i * M) [1..<Suc j]"
    by (simp_all add: milestone_chain_def)
  have u: "u64 (j * M + M) = j * M + M" using b by (simp add: u64_def)
  show ?thesis
  proof (cases "j * M + M < x")
    case True
    with assms(2) have b': "Suc j * M + M < 2 ^ 64" by simp
    have "[1..<Suc (Suc j)] = [1..<Suc j] @ [Suc j]" by simp
    then have "map (\<lambda>i. i * M) [1..<Suc (Suc j)] = map (\<lambda>i. i * M) [1..<Suc j] @ [j * M + M]"
      by simp
    with True mi lm ms u b' have "milestone_chain M (Suc j) ((announce c x)\<lparr>nextNumber := n\<rparr>)"
      by (simp add: milestone_chain_def announce_def milestonesOf_append)
    then show ?thesis ..
  next
    case False
    with mi lm ms u b have "milestone_chain M j ((announce c x)\<lparr>nextNumber := n\<rparr>)"
      by (simp add: milestone_chain_def announce_def)
    then show ?thesis ..
  qed
qed

lemma milestone_chain_run:
  "milestone_chain M j c \<Longrightarrow> \<forall>x \<in> set (fst (getNextNumbers k c)). x + M < 2 ^ 64 \<Longrightarrow>
   \<exists>j'. milestone_chain M j' (snd (getNextNumbers k c))"
proof (induction k arbitrary: j c)
  case 0
  then show ?case by auto
next
  case (Suc k)
  from getNextNumber_result [of c] obtain x where
    g: "getNextNumber c = (x, (announce c x)\<lparr>nextNumber := u64 (x + 1)\<rparr>)" by blast
  define c1 where "c1 = (announce c x)\<lparr>nextNumber := u64 (x + 1)\<rparr>"
  obtain ns c2 where r: "getNextNumbers k c1 = (ns, c2)" by (cases "getNextNumbers k c1")
  from g r have unf: "getNextNumbers (Suc k) c = (x # ns, c2)" by (simp add: c1_def)
  with Suc.prems(2) have x: "x + M < 2 ^ 64" and rest: "\<forall>y \<in> set (fst (getNextNumbers k c1)). y + M < 2 ^ 64"
    using r by simp_all
  from milestone_chain_announce [OF Suc.prems(1) x] obtain j1 where "milestone_chain M j1 c1"
    unfolding c1_def by blast
  from Suc.IH [OF this rest] unf r show ?case by simp
qed

section \<open>The cache under the operations\<close>

lemma emplace_keeps: "m k = Some v \<Longrightarrow> emplace m n happy k = Some v"
  by (auto simp: emplace_def)

lemma emplace_at: "emplace m n happy n = (case m n of None \<Rightarrow> Some happy | Some v \<Rightarrow> Some v)"
  by (auto simp: emplace_def)

lemma cache_grows_newResult:
  assumes g: "cache_grows c m (r, c1)" and nc: "\<not> isCached c n"
  shows "cache_grows c n (r, newResult c1 n r)"
proof -
  from g have ss: "same_settings c c1"
    and mono: "\<And>k v. cache c k = Some v \<Longrightarrow> cache c1 k = Some v"
    and new: "\<And>k v. cache c1 k = Some v \<Longrightarrow> cache c k = Some v \<or> v = r"
    by (auto simp: cache_grows_def)
  have ss': "same_settings c (newResult c1 n r)"
    using ss same_settings_newResult by (rule same_settings_trans)
  have cr: "cacheResults c1 = cacheResults c" using ss by (simp add: same_settings_def)
  have a: "cache (newResult c1 n r) k = Some v" if "cache c k = Some v" for k v
    using mono [OF that] by (simp add: cache_newResult emplace_keeps)
  have b: "cache c k = Some v \<or> v = r" if "cache (newResult c1 n r) k = Some v" for k v
  proof -
    from that have "cache c1 k = Some v \<or> (k = n \<and> v = r)"
      by (auto simp: cache_newResult dest: emplace_Some split: if_splits)
    with new show ?thesis by blast
  qed
  have d: "cache (newResult c1 n r) n = Some r" if "cacheResults c"
  proof (cases "cache c1 n")
    case None
    with that cr show ?thesis by (simp add: cache_newResult emplace_at)
  next
    case (Some v)
    from nc that have "cache c n = None" by (simp add: isCached_def)
    with new [OF Some] have "v = r" by simp
    with Some that cr show ?thesis by (simp add: cache_newResult emplace_at)
  qed
  from ss' a b d show ?thesis unfolding cache_grows_def by auto
qed

lemma cache_grows_from:
  assumes "same_settings c c0" "cache c0 = cache c" "cache_grows c0 m y"
  shows "cache_grows c m y"
proof -
  obtain r c1 where y: "y = (r, c1)" by (cases y)
  from assms(3) have "same_settings c0 c1" by (simp add: cache_grows_def y)
  with assms(1) have "same_settings c c1" by (rule same_settings_trans)
  moreover have "cacheResults c0 = cacheResults c" "isCached c0 m = isCached c m"
    using assms(1,2) by (simp_all add: same_settings_def isCached_def)
  ultimately show ?thesis using assms(2,3) by (simp add: cache_grows_def y)
qed

lemmas isHappy_induct = isHappy.raw_induct [rotated 1, consumes 1, case_names call]

lemma isHappy_cache_grows: "isHappy c n = Some y \<Longrightarrow> cache_grows c n y"
proof (induction rule: isHappy_induct)
  case (call f c n y)
  show ?case
  proof (cases "isCached c n")
    case True
    then obtain v where v: "cache c n = Some v" and cr: "cacheResults c"
      by (auto simp: isCached_def split: if_splits)
    from True call.hyps have "y = (v, c)" using v by simp
    with v show ?thesis by (simp add: cache_grows_def same_settings_refl)
  next
    case nc: False
    show ?thesis
    proof (cases "n = 1 \<or> n = 4")
      case True
      with nc call.hyps have "y = (True, c) \<or> y = (False, c)" by auto
      with nc True show ?thesis by (auto simp: cache_grows_def same_settings_refl)
    next
      case False
      define m where "m = fst (childCall c n)"
      define c0 where "c0 = snd (childCall c n)"
      from nc False call.hyps have
        "Option.bind (f c0 m) (\<lambda>(happy, c'). Some (happy, newResult c' n happy)) = Some y"
        by (cases "skipPermutations c")
          (simp_all add: m_def c0_def childCall_def sortDigits_def Let_def)
      then obtain r c1 where rec: "f c0 m = Some (r, c1)" and y: "y = (r, newResult c1 n r)"
        by (auto simp: bind_eq_Some_conv)
      from rec have "cache_grows c0 m (r, c1)" by (rule call.IH)
      with childCall_frame(1,2) [of c n] have "cache_grows c m (r, c1)"
        unfolding c0_def by (rule cache_grows_from)
      then have "cache_grows c n (r, newResult c1 n r)" using nc by (rule cache_grows_newResult)
      with y show ?thesis by simp
    qed
  qed
qed

lemma isHappy_same_settings: "isHappy c n = Some (r, c') \<Longrightarrow> same_settings c c'"
  using isHappy_cache_grows [of c n "(r, c')"] by (simp add: cache_grows_def)

lemma isHappy_cache_mono: "isHappy c n = Some (r, c') \<Longrightarrow> cache c k = Some v \<Longrightarrow> cache c' k = Some v"
  using isHappy_cache_grows [of c n "(r, c')"] by (simp add: cache_grows_def)

lemma getNextNumber_loop_frame:
  "cache (snd (getNextNumber_loop c i)) = cache c \<and>
   cacheResults (snd (getNextNumber_loop c i)) = cacheResults c \<and>
   stopAt (snd (getNextNumber_loop c i)) = stopAt c \<and>
   base (snd (getNextNumber_loop c i)) = base c \<and>
   skipPermutations (snd (getNextNumber_loop c i)) = skipPermutations c"
proof (induction c i rule: getNextNumber_loop.induct)
  case (1 c i)
  show ?case
  proof (cases "\<not> skipPermutations c \<or> areDigitsSorted (base c) i")
    case True
    then show ?thesis by (simp add: getNextNumber_loop_found announce_frame)
  next
    case False
    then have "getNextNumber_loop c i = getNextNumber_loop c (u64 (i + 1))"
      by (simp add: getNextNumber_loop_skip)
    with False "1.IH" show ?thesis by simp
  qed
qed

lemma getNextNumber_frame:
  "cache (snd (getNextNumber c)) = cache c" "cacheResults (snd (getNextNumber c)) = cacheResults c"
  "stopAt (snd (getNextNumber c)) = stopAt c" "base (snd (getNextNumber c)) = base c"
  "skipPermutations (snd (getNextNumber c)) = skipPermutations c"
  using getNextNumber_loop_frame [of c "nextNumber c"] by (simp_all add: getNextNumber_def)

lemma perform_cache:
  assumes "perform c x = Some c'"
  shows "cacheResults c' = cacheResults c \<and> (\<forall>k v. cache c k = Some v \<longrightarrow> cache c' k = Some v)"
proof (cases x)
  case (IsHappy n)
  with assms obtain r where r: "isHappy c n = Some (r, c')" by auto
  from isHappy_same_settings [OF r] isHappy_cache_mono [OF r] show ?thesis
    by (simp add: same_settings_def)
next
  case GetNextNumber
  with assms have "c' = snd (getNextNumber c)" by simp
  then show ?thesis by (simp add: getNextNumber_frame)
next
  case (NewResult n happy)
  with assms have c': "c' = newResult c n happy" by simp
  have "cacheResults c' = cacheResults c"
    using same_settings_newResult [of c n happy] by (simp add: c' same_settings_def)
  then show ?thesis by (simp add: c' cache_newResult emplace_keeps)
qed

lemma performAll_cache:
  "performAll c xs = Some c' \<Longrightarrow>
   cacheResults c' = cacheResults c \<and> (\<forall>k v. cache c k = Some v \<longrightarrow> cache c' k = Some v)"
proof (induction xs arbitrary: c)
  case Nil
  then show ?case by simp
next
  case (Cons x xs)
  then obtain c1 where c1: "perform c x = Some c1" "performAll c1 xs = Some c'"
    by (auto simp: bind_eq_Some_conv)
  from perform_cache [OF c1(1)] Cons.IH [OF c1(2)] show ?case by simp
qed

lemma performAll_seeded: "seeded c \<Longrightarrow> performAll c xs = Some c' \<Longrightarrow> seeded c'"
  using performAll_cache [of c xs c'] by (auto simp: seeded_def)

lemma seeded_new: "seeded (newHnCalculator True sp b h)"
  by (simp add: seeded_def newHnCalculator_def)

lemma isHappy_cached_after:
  assumes "seeded c" "isHappy c n = Some (happy, c')"
  shows "cache c' n = Some happy \<and> isCached c' n"
proof -
  from assms(1) have cr: "cacheResults c" and s: "isCached c 1" "isCached c 4"
    by (simp_all add: seeded_def isCached_def)
  from s have "isCached c n \<or> (n \<noteq> 1 \<and> n \<noteq> 4)" by auto
  with isHappy_cache_grows [OF assms(2)] cr have "cache c' n = Some happy"
    unfolding cache_grows_def by blast
  moreover have "cacheResults c'" using isHappy_same_settings [OF assms(2)] cr
    by (simp add: same_settings_def)
  ultimately show ?thesis by (simp add: isCached_def)
qed

section \<open>The worker loop\<close>

lemmas threadLoop_from_induct =
  threadLoop_from.raw_induct [rotated 1, consumes 1, case_names iteration]

lemma threadLoop_from_bounded: "threadLoop_from c n = Some y \<Longrightarrow> loop_bounded c n y"
proof (induction rule: threadLoop_from_induct)
  case (iteration f c n y)
  show ?case
  proof (cases "n < stopAt c")
    case False
    with iteration.hyps have "y = ([], c)" by simp
    with False show ?thesis by (simp add: loop_bounded_def)
  next
    case lt: True
    obtain i c1 where g: "getNextNumber c = (i, c1)" by (cases "getNextNumber c")
    with lt iteration.hyps obtain happy c2 ns c3 where
      h: "isHappy c1 i = Some (happy, c2)" and rec: "f c2 i = Some (ns, c3)"
      and y: "y = (i # ns, c3)"
      by (auto simp: bind_eq_Some_conv)
    have s1: "stopAt c1 = stopAt c" using getNextNumber_frame(3) [of c] g by simp
    have s2: "stopAt c2 = stopAt c1" using isHappy_same_settings [OF h] by (simp add: same_settings_def)
    from rec have "loop_bounded c2 i (ns, c3)" by (rule iteration.IH)
    then have b: "stopAt c3 = stopAt c" "ns = [] \<longleftrightarrow> \<not> i < stopAt c"
      "\<forall>x \<in> set (butlast ns). x < stopAt c" "ns \<noteq> [] \<longrightarrow> stopAt c \<le> last ns"
      using s1 s2 by (simp_all add: loop_bounded_def)
    show ?thesis
    proof (cases "ns = []")
      case True
      with b y lt show ?thesis by (simp add: loop_bounded_def)
    next
      case False
      with b y lt show ?thesis by (simp add: loop_bounded_def)
    qed
  qed
qed

lemma threadLoop_from_noskip:
  assumes "\<not> skipPermutations c" "base c = 10" "stopAt c = B" "B < 2 ^ 64" "n \<le> B"
    "n < B \<longrightarrow> nextNumber c = n + 1"
  shows "\<exists>c'. threadLoop_from c n = Some ([n + 1..<B + 1], c')"
  using assms
proof (induction "B - n" arbitrary: n c)
  case 0
  then have "n = B" by simp
  with "0.prems"(3) have "threadLoop_from c n = Some ([], c)"
    by (subst threadLoop_from.simps) simp
  with \<open>n = B\<close> show ?case by simp
next
  case (Suc d)
  then have lt: "n < B" by simp
  with Suc.prems have nn: "nextNumber c = n + 1" by simp
  define c1 where "c1 = (announce c (n + 1))\<lparr>nextNumber := u64 (n + 1 + 1)\<rparr>"
  have g: "getNextNumber c = (n + 1, c1)"
    using Suc.prems(1) nn by (simp add: getNextNumber_noskip c1_def)
  have c1: "\<not> skipPermutations c1" "base c1 = 10" "stopAt c1 = B" "nextNumber c1 = u64 (n + 1 + 1)"
    using Suc.prems(1,2,3) by (simp_all add: c1_def announce_frame)
  have "1 \<le> n + 1" "n + 1 < 2 ^ 64" using lt Suc.prems(4) by simp_all
  from isHappy_returns [OF c1(2) this] c1(1) obtain happy c2 where
    h: "isHappy c1 (n + 1) = Some (happy, c2)" by blast
  from isHappy_same_settings [OF h] c1 have
    c2: "\<not> skipPermutations c2" "base c2 = 10" "stopAt c2 = B" "nextNumber c2 = u64 (n + 1 + 1)"
    by (simp_all add: same_settings_def)
  have "\<exists>c'. threadLoop_from c2 (n + 1) = Some ([n + 1 + 1..<B + 1], c')"
  proof (rule Suc.hyps(1))
    show "d = B - (n + 1)" using Suc.hyps(2) by simp
    show "\<not> skipPermutations c2" "base c2 = 10" "stopAt c2 = B" by (rule c2)+
    show "B < 2 ^ 64" by (rule Suc.prems(4))
    show "n + 1 \<le> B" using lt by simp
    show "n + 1 < B \<longrightarrow> nextNumber c2 = n + 1 + 1"
    proof
      assume "n + 1 < B"
      with Suc.prems(4) have "n + 1 + 1 < 2 ^ 64" by simp
      then show "nextNumber c2 = n + 1 + 1" using c2(4) by (simp add: u64_def)
    qed
  qed
  then obtain c' where r: "threadLoop_from c2 (n + 1) = Some ([n + 1 + 1..<B + 1], c')" by blast
  have "threadLoop_from c n = Some ((n + 1) # [n + 1 + 1..<B + 1], c')"
    using lt Suc.prems(3) g h r by (subst threadLoop_from.simps) simp
  moreover have "[n + 1..<B + 1] = (n + 1) # [n + 1 + 1..<B + 1]"
    using lt by (simp add: upt_conv_Cons)
  ultimately show ?case by simp
qed

section \<open>Classification in a zeroed memory\<close>

lemma isHappy_known_values_zeroed:
  "(\<exists>c'. isHappy (newHnCalculator cr sp 10 (zeroes 10)) 1 = Some (True, c')) \<and>
   (\<exists>c'. isHappy (newHnCalculator cr sp 10 (zeroes 10)) 7 = Some (True, c')) \<and>
   (\<exists>c'. isHappy (newHnCalculator cr sp 10 (zeroes 10)) 19 = Some (True, c')) \<and>
   (\<exists>c'. isHappy (newHnCalculator cr sp 10 (zeroes 10)) 4 = Some (False, c')) \<and>
   (\<exists>c'. isHappy (newHnCalculator cr sp 10 (zeroes 10)) 2 = Some (False, c')) \<and>
   (\<exists>c'. isHappy (newHnCalculator cr sp 10 (zeroes 10)) 89 = Some (False, c'))"
proof -
  have z: "sp \<longrightarrow> zeroed (newHnCalculator cr sp 10 (zeroes 10))" by (simp add: zeroed_new)
  show ?thesis
    by (intro conjI isHappy_new [OF _ z] classify_known [THEN classify_sound])
qed

lemma isHappy_flags_agree_zeroed:
  assumes "\<forall>m \<in> set ns. 1 \<le> m \<and> m < 2 ^ 64" "1 \<le> n" "n < 2 ^ 64"
  shows "\<exists>happy rs. \<forall>cr sp. \<exists>c1 c2.
           isHappy_all (newHnCalculator cr sp 10 (zeroes 10)) ns = Some (rs, c1) \<and>
           isHappy c1 n = Some (happy, c2)"
proof (rule exI [of _ "classifies False n True"],
    rule exI [of _ "map (\<lambda>m. classifies False m True) ns"], intro allI)
  fix cr sp
  let ?c = "newHnCalculator cr sp 10 (zeroes 10)"
  have b: "base ?c = 10" by (simp add: newHnCalculator_def)
  have z: "skipPermutations ?c \<longrightarrow> zeroed ?c" by (simp add: zeroed_new)
  from isHappy_all_happy [OF assms(1) b cache_sound_new z] obtain c1 where
    c1: "isHappy_all ?c ns = Some (map (\<lambda>m. classifies False m True) ns, c1)"
      "base c1 = 10" "cache_sound c1" "fresh c1 = fresh ?c" by blast
  from c1(2,4) b zeroed_new [of cr sp 10] have "skipPermutations c1 \<longrightarrow> zeroed c1"
    by (simp add: zeroed_def)
  from isHappy_happy [OF c1(2,3) assms(2,3) this] obtain c2 where
    "isHappy c1 n = Some (classifies False n True, c2)" by blast
  with c1(1) show "\<exists>c1 c2.
      isHappy_all ?c ns = Some (map (\<lambda>m. classifies False m True) ns, c1) \<and>
      isHappy c1 n = Some (classifies False n True, c2)" by blast
qed

section \<open>Counters that are not zero when allocated\<close>

lemma sortDigits_on_zeroes:
  "fresh c (allocated c) = replicate (base c) 0 \<Longrightarrow>
   fst (sortDigits c n) = sortDigits_zeroed (base c) n"
  by (simp add: sortDigits_def sortDigits_zeroed_def)

lemma loop_numbers_eval:
  "map (\<lambda>n. sortDigits_from [1, 0, 0, 0, 0, 0, 0, 0, 0, 0] 10 (sumOfDigitSquares 10 n))
     loop_numbers = [14, 117, 115, 127, 145, 124, 112, 16, 137, 159, 117]"
  by (simp add: loop_numbers_def digit_eval)

lemma loop_numbers_step:
  assumes "n \<in> set loop_numbers"
  shows "sortDigits_from [1, 0, 0, 0, 0, 0, 0, 0, 0, 0] 10 (sumOfDigitSquares 10 n)
           \<in> set loop_numbers"
proof -
  let ?f = "\<lambda>n. sortDigits_from [1, 0, 0, 0, 0, 0, 0, 0, 0, 0] 10 (sumOfDigitSquares 10 n)"
  from assms have "?f n \<in> ?f ` set loop_numbers" by (rule imageI)
  then have "?f n \<in> set (map ?f loop_numbers)" by (simp only: set_map)
  then have "?f n \<in> set [14, 117, 115, 127, 145, 124, 112, 16, 137, 159, 117]"
    by (simp only: loop_numbers_eval)
  then show ?thesis unfolding loop_numbers_def by auto
qed

lemma looping_childCall:
  assumes "looping c"
  shows "looping (snd (childCall c n))"
    and "fst (childCall c n) =
           sortDigits_from [1, 0, 0, 0, 0, 0, 0, 0, 0, 0] 10 (sumOfDigitSquares 10 n)"
  using assms by (simp_all add: looping_def childCall_def sortDigits_def Let_def)

text \<open>On such an object a call of \<^verbatim>\<open>isHappy\<close> on one of these numbers does not return.\<close>

lemma isHappy_looping:
  "isHappy c n = Some y \<Longrightarrow> \<not> (looping c \<and> n \<in> set loop_numbers)"
proof (induction rule: isHappy_induct)
  case (call f c n y)
  show ?case
  proof
    assume a: "looping c \<and> n \<in> set loop_numbers"
    then have l: "looping c" and n: "n \<in> set loop_numbers" by simp_all
    from n have n14: "n \<noteq> 1" "n \<noteq> 4" by (auto simp: loop_numbers_def)
    with l have nc: "\<not> isCached c n" by (auto simp: looping_def isCached_def)
    define m where "m = fst (childCall c n)"
    define c0 where "c0 = snd (childCall c n)"
    from nc n14 call.hyps have
      "Option.bind (f c0 m) (\<lambda>(happy, c'). Some (happy, newResult c' n happy)) = Some y"
      by (cases "skipPermutations c")
        (simp_all add: m_def c0_def childCall_def sortDigits_def Let_def)
    then obtain r c1 where "f c0 m = Some (r, c1)" by (auto simp: bind_eq_Some_conv)
    then have "\<not> (looping c0 \<and> m \<in> set loop_numbers)" by (rule call.IH)
    moreover have "looping c0" unfolding c0_def using l by (rule looping_childCall(1))
    moreover have "m \<in> set loop_numbers"
      unfolding m_def looping_childCall(2) [OF l] using n by (rule loop_numbers_step)
    ultimately show False by simp
  qed
qed

section \<open>Claims about sortDigits\<close>

text \<open>
  C3: \<^verbatim>\<open>sortDigits(n)\<close> has the same sum of squared digits as \<open>n\<close>, and its digits are
  sorted. \<^verbatim>\<open>sortDigits\<close> counts on from what its array holds when it is allocated, so the
  result depends on it: in base 10, on an array that holds 1 in the counter of the
  digit 6, \<^verbatim>\<open>sortDigits(5)\<close> is 56, and the sum of the squares of its digits is 61 where
  that of 5 is 25. On an array of zeroes the sum is kept and the digits are sorted
  (\<open>sumOfDigitSquares_sortDigits\<close>, \<open>areDigitsSorted_sortDigits\<close>).
\<close>

theorem sortDigits_changes_sum:
  "fst (sortDigits (newHnCalculator True True 10 (every_array [0, 0, 0, 0, 0, 1, 0, 0, 0, 0])) 5)
     = 56 \<and>
   sumOfDigitSquares 10
     (fst (sortDigits (newHnCalculator True True 10 (every_array [0, 0, 0, 0, 0, 1, 0, 0, 0, 0])) 5))
     = 61 \<and>
   sumOfDigitSquares 10 5 = 25"
  by (simp add: calc_eval digit_eval)

text \<open>
  C4, as stated: \<^verbatim>\<open>sortDigits(n)\<close> has the digits of \<open>n\<close>, every 0 included. It fails at
  \<open>n = 10\<close> in base 10, on an array of zeroes: the result is 1, one digit where \<open>n\<close> has
  two.
\<close>

theorem sortDigits_multiset_counterexample:
  "fst (sortDigits (newHnCalculator True True 10 (zeroes 10)) 10) = 1 \<and>
   mset (digitsOf 10 (fst (sortDigits (newHnCalculator True True 10 (zeroes 10)) 10)))
     \<noteq> mset (digitsOf 10 10) \<and>
   length (digitsOf 10 (fst (sortDigits (newHnCalculator True True 10 (zeroes 10)) 10)))
     \<noteq> length (digitsOf 10 10)"
  by (simp add: calc_eval digit_eval)

text \<open>
  C4, amended. The loop of \<^verbatim>\<open>sortDigits\<close> counts a digit only under the guard
  \<^verbatim>\<open>n%base != 0\<close>. When the array it allocates holds zeroes, the digits of the result
  are the non-zero digits of \<open>n\<close>, each as often as in \<open>n\<close>; a number with no digit 0
  keeps all its digits.
\<close>

theorem sortDigits_nonzero_digits:
  "2 \<le> base c \<Longrightarrow> n < 2 ^ 64 \<Longrightarrow> fresh c (allocated c) = replicate (base c) 0 \<Longrightarrow>
   mset (digitsOf (base c) (fst (sortDigits c n))) =
     filter_mset (\<lambda>d. d \<noteq> 0) (mset (digitsOf (base c) n)) \<and>
   (0 \<notin> set (digitsOf (base c) n) \<longrightarrow>
      mset (digitsOf (base c) (fst (sortDigits c n))) = mset (digitsOf (base c) n))"
proof -
  assume b: "2 \<le> base c" and n: "n < 2 ^ 64"
    and z: "fresh c (allocated c) = replicate (base c) 0"
  have m: "mset (digitsOf (base c) (fst (sortDigits c n))) =
      filter_mset (\<lambda>d. d \<noteq> 0) (mset (digitsOf (base c) n))"
    unfolding sortDigits_on_zeroes [OF z] digitsOf_sortDigits [OF b n] by (rule mset_sortedDigits)
  have "filter_mset (\<lambda>d. d \<noteq> 0) (mset (digitsOf (base c) n)) = mset (digitsOf (base c) n)"
    if "0 \<notin> set (digitsOf (base c) n)"
    using that by (rule filter_nonzero_id)
  with m show ?thesis by simp
qed

theorem sortDigits_nonzero_digits_witness:
  "fst (sortDigits (newHnCalculator True True 10 (zeroes 10)) 3021) = 123 \<and>
   mset (digitsOf 10 (fst (sortDigits (newHnCalculator True True 10 (zeroes 10)) 3021))) =
     filter_mset (\<lambda>d. d \<noteq> 0) (mset (digitsOf 10 3021)) \<and>
   0 \<notin> set (digitsOf 10 312) \<and>
   mset (digitsOf 10 (fst (sortDigits (newHnCalculator True True 10 (zeroes 10)) 312))) =
     mset (digitsOf 10 312)"
proof -
  let ?c = "newHnCalculator True True 10 (zeroes 10)"
  have c: "base ?c = 10" by (simp add: newHnCalculator_def)
  have b: "2 \<le> base ?c" and z: "fresh ?c (allocated ?c) = replicate (base ?c) 0"
    by (simp_all add: newHnCalculator_def zeroes_def)
  have n: "(3021::nat) < 2 ^ 64" "(312::nat) < 2 ^ 64" by simp_all
  have v: "0 \<notin> set (digitsOf 10 312)" by (simp add: digit_eval)
  have r: "fst (sortDigits ?c 3021) = 123" by (simp add: calc_eval digit_eval)
  from sortDigits_nonzero_digits [OF b n(1) z]
  have x: "mset (digitsOf 10 (fst (sortDigits ?c 3021))) =
      filter_mset (\<lambda>d. d \<noteq> 0) (mset (digitsOf 10 3021))"
    unfolding c by (rule conjunct1)
  from sortDigits_nonzero_digits [OF b n(2) z] v
  have y: "mset (digitsOf 10 (fst (sortDigits ?c 312))) = mset (digitsOf 10 312)"
    unfolding c by blast
  from r x v y show ?thesis by blast
qed

text \<open>
  C10: \<^verbatim>\<open>sortDigits(n)\<close> is at most \<open>n\<close>, as the comment of the function says (``can not
  be more than n''). The result depends on what the array holds when it is allocated:
  in base 10, on an array that holds 1 in the counter of the digit 9, \<^verbatim>\<open>sortDigits(7)\<close>
  is 79. On an array of zeroes the result is at most \<open>n\<close> (\<open>sortDigits_le\<close>).
\<close>

theorem sortDigits_more:
  "fst (sortDigits (newHnCalculator True True 10 (every_array [0, 0, 0, 0, 0, 0, 0, 0, 1, 0])) 7)
     = 79 \<and>
   7 < fst (sortDigits (newHnCalculator True True 10 (every_array [0, 0, 0, 0, 0, 0, 0, 0, 1, 0])) 7)"
  by (simp add: calc_eval digit_eval)

section \<open>Claims about isHappy\<close>

text \<open>
  C1: in base 10 the call \<^verbatim>\<open>isHappy(n)\<close> returns for every \<open>n \<ge> 1\<close>, whatever the flags.
  With \<^verbatim>\<open>skipPermutations\<close> set the numbers the call goes through are results of
  \<^verbatim>\<open>sortDigits\<close>, which depend on what its arrays hold when they are allocated. On a new
  object with the default flags, in a memory whose arrays all hold 1 in the counter of
  the digit 1, \<^verbatim>\<open>isHappy(2)\<close> does not return: it calls itself on 14, 117, 115, 127, 145,
  124, 112, 16, 137, 159, and on 117 again, and so on. In a memory of zeroes, as
  without \<^verbatim>\<open>skipPermutations\<close>, the call returns (\<open>isHappy_returns\<close>).
\<close>

theorem isHappy_does_not_return:
  "isHappy (newHnCalculator True True 10 (every_array [1, 0, 0, 0, 0, 0, 0, 0, 0, 0])) 2 = None"
proof (cases "isHappy (newHnCalculator True True 10 (every_array [1, 0, 0, 0, 0, 0, 0, 0, 0, 0])) 2")
  case None
  then show ?thesis .
next
  case (Some y)
  then have "\<not> (looping (newHnCalculator True True 10 (every_array [1, 0, 0, 0, 0, 0, 0, 0, 0, 0]))
      \<and> 2 \<in> set loop_numbers)"
    by (rule isHappy_looping)
  moreover have "looping (newHnCalculator True True 10 (every_array [1, 0, 0, 0, 0, 0, 0, 0, 0, 0]))"
    by (simp add: looping_def newHnCalculator_def every_array_def)
  moreover have "2 \<in> set loop_numbers" by (simp add: loop_numbers_def)
  ultimately show ?thesis by simp
qed

text \<open>
  C2: in base 10, on a new object, \<^verbatim>\<open>isHappy\<close> returns true for 1, 7 and 19 and false
  for 4, 2 and 89, whatever the flags. With \<^verbatim>\<open>skipPermutations\<close> set the value depends
  on what the arrays of \<^verbatim>\<open>sortDigits\<close> hold when they are allocated: when the first one
  holds 1 in the counter of the digit 4 and the later ones zeroes, \<^verbatim>\<open>isHappy(2)\<close> goes
  through 44, 23, 13 and 1 and returns true. In a memory of zeroes, as without
  \<^verbatim>\<open>skipPermutations\<close>, the six values are as stated (\<open>isHappy_known_values_zeroed\<close>,
  \<open>isHappy_new\<close>).
\<close>

theorem isHappy_2_happy:
  "map_option fst
     (isHappy (newHnCalculator True True 10 (first_array [0, 0, 0, 1, 0, 0, 0, 0, 0, 0] 10)) 2)
     = Some True"
proof -
  have "\<exists>c'. isHappy
      (newHnCalculator True True 10 (first_array [0, 0, 0, 1, 0, 0, 0, 0, 0, 0] 10)) 2
      = Some (True, c')"
    by (simp add: isHappy.simps calc_eval digit_eval)
  then show ?thesis by auto
qed

text \<open>
  C9: in base 10 the value \<^verbatim>\<open>isHappy(n)\<close> returns is the same for the four settings of
  \<^verbatim>\<open>cacheResults\<close> and \<^verbatim>\<open>skipPermutations\<close>. With \<^verbatim>\<open>skipPermutations\<close> set the value
  depends on what the arrays of \<^verbatim>\<open>sortDigits\<close> hold when they are allocated: in a memory
  whose first array holds 1 in the counter of the digit 1 and the later ones zeroes,
  \<^verbatim>\<open>isHappy(3)\<close> returns false without \<^verbatim>\<open>skipPermutations\<close> and true with it (it goes
  through 19, 28, 68 and 1). In a memory of zeroes the four values agree, on a new
  object and after earlier calls (\<open>isHappy_flags_agree_zeroed\<close>).
\<close>

theorem isHappy_flags_disagree:
  "map_option fst
     (isHappy (newHnCalculator True False 10 (first_array [1, 0, 0, 0, 0, 0, 0, 0, 0, 0] 10)) 3)
     = Some False \<and>
   map_option fst
     (isHappy (newHnCalculator True True 10 (first_array [1, 0, 0, 0, 0, 0, 0, 0, 0, 0] 10)) 3)
     = Some True"
proof -
  have "\<exists>c'. isHappy
      (newHnCalculator True False 10 (first_array [1, 0, 0, 0, 0, 0, 0, 0, 0, 0] 10)) 3
      = Some (False, c')"
    by (simp add: isHappy.simps calc_eval digit_eval)
  moreover have "\<exists>c'. isHappy
      (newHnCalculator True True 10 (first_array [1, 0, 0, 0, 0, 0, 0, 0, 0, 0] 10)) 3
      = Some (True, c')"
    by (simp add: isHappy.simps calc_eval digit_eval)
  ultimately show ?thesis by auto
qed

section \<open>Claims about the cursor\<close>

text \<open>
  C5. With \<^verbatim>\<open>skipPermutations\<close> set and the cursor at its initial state
  (\<^verbatim>\<open>nextNumber = 1\<close>), the numbers returned by repeated calls of \<^verbatim>\<open>getNextNumber\<close>,
  cut at the first that is not below \<open>B\<close>, are exactly the numbers of \<open>[1, B)\<close> on which
  \<^verbatim>\<open>areDigitsSorted\<close> holds, in strictly increasing order. \<open>B\<close> is a bound the 64-bit
  cursor reaches before it wraps: some number from \<open>B\<close> up to \<open>2 ^ 64 - 1\<close> has sorted digits.
  \<open>k\<close> is any number of calls that is at least the number of such numbers.
\<close>

theorem getNextNumber_sorted_sequence:
  assumes "2 \<le> base c" "skipPermutations c" "nextNumber c = 1"
    and "B \<le> m" "m < 2 ^ 64" "areDigitsSorted (base c) m"
    and "length (filter (areDigitsSorted (base c)) [1..<B]) \<le> k"
  shows "takeWhile (\<lambda>x. x < B) (fst (getNextNumbers k c)) = filter (areDigitsSorted (base c)) [1..<B] \<and>
         sorted_wrt (<) (takeWhile (\<lambda>x. x < B) (fst (getNextNumbers k c)))"
proof -
  have eq: "takeWhile (\<lambda>x. x < B) (fst (getNextNumbers k c)) = filter (areDigitsSorted (base c)) [1..<B]"
  proof (cases "m = 0")
    case True
    with assms(4) have "B = 0" by simp
    then show ?thesis by (simp add: takeWhile_eq_Nil_iff)
  next
    case False
    then have "nextNumber c \<le> m" using assms(3) by simp
    from getNextNumbers_skip [OF assms(2,6,5,4) this] assms(3,7) show ?thesis by simp
  qed
  have "sorted_wrt (<) [1..<B]" by (simp add: sorted_wrt_upt)
  then have "sorted_wrt (<) (filter (areDigitsSorted (base c)) [1..<B])" by (rule sorted_wrt_filter)
  with eq show ?thesis by simp
qed

theorem getNextNumber_sorted_sequence_witness:
  "fst (getNextNumbers 12 (newHnCalculator True True 10 (zeroes 10))) = [1, 2, 3, 4, 5, 6, 7, 8, 9, 11, 12, 13] \<and>
   takeWhile (\<lambda>x. x < 13) (fst (getNextNumbers 12 (newHnCalculator True True 10 (zeroes 10)))) =
     filter (areDigitsSorted 10) [1..<13] \<and>
   filter (areDigitsSorted 10) [1..<13] = [1, 2, 3, 4, 5, 6, 7, 8, 9, 11, 12]"
proof -
  let ?c = "newHnCalculator True True 10 (zeroes 10)"
  have c: "2 \<le> base ?c" "skipPermutations ?c" "nextNumber ?c = 1" "base ?c = 10"
    by (simp_all add: newHnCalculator_def)
  have m: "(13::nat) \<le> 13" "(13::nat) < 2 ^ 64" "areDigitsSorted (base ?c) 13"
    by (simp_all add: cursor_eval)
  have f: "filter (areDigitsSorted 10) [1..<13] = [1, 2, 3, 4, 5, 6, 7, 8, 9, 11, 12]"
    by (simp add: cursor_eval)
  then have k: "length (filter (areDigitsSorted (base ?c)) [1..<13]) \<le> 12" by (simp add: c(4))
  have p: "fst (getNextNumbers 12 ?c) = [1, 2, 3, 4, 5, 6, 7, 8, 9, 11, 12, 13]"
    by (simp add: getNextNumbers_unfold cursor_eval)
  from getNextNumber_sorted_sequence [OF c(1,2,3) m k] f p show ?thesis by (simp add: c(4))
qed

text \<open>
  C6, as stated: after the numbers of \<open>[1, B)\<close> are handed out, \<open>(B - 1) div M\<close> milestones
  have been announced. It fails for \<open>M = 10\<close>, \<open>B = 11\<close>: the numbers 1 to 10 are handed
  out and no milestone is announced.
\<close>

theorem milestones_counterexample:
  "fst (getNextNumbers (11 - 1) ((newHnCalculator True False 10 (zeroes 10))\<lparr>milestoneInc := Some 10\<rparr>)) =
     [1, 2, 3, 4, 5, 6, 7, 8, 9, 10] \<and>
   milestonesOf (printed (snd (getNextNumbers (11 - 1)
       ((newHnCalculator True False 10 (zeroes 10))\<lparr>milestoneInc := Some 10\<rparr>)))) = [] \<and>
   length (milestonesOf (printed (snd (getNextNumbers (11 - 1)
       ((newHnCalculator True False 10 (zeroes 10))\<lparr>milestoneInc := Some 10\<rparr>))))) \<noteq> (11 - 1) div 10"
  by (simp add: getNextNumbers_unfold cursor_eval)

text \<open>
  C6, amended. \<^verbatim>\<open>getNextNumber\<close> announces the boundary \<^verbatim>\<open>lastMilestone + milestoneInc\<close>
  when it hands out a number greater than it, one boundary per call at most. On a new
  cursor with interval \<open>M\<close>, \<open>1 \<le> M < 2 ^ 64\<close>: without skipping, for a bound \<open>B \<ge> 2\<close>
  with \<open>B + M \<le> 2 ^ 64\<close>, after the numbers of \<open>[1, B)\<close> are handed out the boundaries
  announced are \<open>M\<close>, \<open>2M\<close>, ..., each once and in this order, \<open>(B - 2) div M\<close> of them;
  with or without skipping, after any number \<open>k\<close> of calls in which every number \<open>x\<close>
  handed out has \<open>x + M < 2 ^ 64\<close> (no boundary compared or announced overflows), the
  boundaries announced are \<open>M\<close>, \<open>2M\<close>, ..., \<open>jM\<close> for some \<open>j\<close>, each once and in this
  order.
\<close>

theorem milestones_announced:
  assumes "1 \<le> M" "M < 2 ^ 64" "milestoneInc c = Some M"
    and "nextNumber c = 1" "lastMilestone c = 0" "printed c = []"
  shows "(\<not> skipPermutations c \<longrightarrow> 2 \<le> B \<longrightarrow> B + M \<le> 2 ^ 64 \<longrightarrow>
            fst (getNextNumbers (B - 1) c) = [1..<B] \<and>
            milestonesOf (printed (snd (getNextNumbers (B - 1) c))) =
              map (\<lambda>j. j * M) [1..<Suc ((B - 2) div M)] \<and>
            length (milestonesOf (printed (snd (getNextNumbers (B - 1) c)))) = (B - 2) div M) \<and>
         ((\<forall>x \<in> set (fst (getNextNumbers k c)). x + M < 2 ^ 64) \<longrightarrow>
            (\<exists>j. milestonesOf (printed (snd (getNextNumbers k c))) = map (\<lambda>i. i * M) [1..<Suc j]))"
proof (intro conjI impI)
  assume ns: "\<not> skipPermutations c" and B: "2 \<le> B" "B + M \<le> 2 ^ 64"
  have s0: "milestone_state M 0 c" using ns assms(3-6) by (simp add: milestone_state_def)
  have "0 + (B - 1) + M < 2 ^ 64" using B by simp
  from milestone_run [OF s0 assms(1) this] obtain c' where
    c': "getNextNumbers (B - 1) c = ([1..<B], c')" "milestone_state M (B - 1) c'"
    using B(1) by auto
  from c'(2) have "milestonesOf (printed c') = map (\<lambda>j. j * M) [1..<Suc ((B - 1 - 1) div M)]"
    unfolding milestone_state_def by blast
  moreover have "B - 1 - 1 = B - 2" by simp
  ultimately have m: "milestonesOf (printed c') = map (\<lambda>j. j * M) [1..<Suc ((B - 2) div M)]"
    by (simp only:)
  from c'(1) show "fst (getNextNumbers (B - 1) c) = [1..<B]" by simp
  from c'(1) m show "milestonesOf (printed (snd (getNextNumbers (B - 1) c))) =
      map (\<lambda>j. j * M) [1..<Suc ((B - 2) div M)]" by simp
  from c'(1) m show "length (milestonesOf (printed (snd (getNextNumbers (B - 1) c)))) = (B - 2) div M"
    by simp
next
  assume a: "\<forall>x \<in> set (fst (getNextNumbers k c)). x + M < 2 ^ 64"
  have "milestone_chain M 0 c" using assms(2,3,5,6) by (simp add: milestone_chain_def)
  from milestone_chain_run [OF this a] obtain j where
    "milestone_chain M j (snd (getNextNumbers k c))" by blast
  then have "milestonesOf (printed (snd (getNextNumbers k c))) = map (\<lambda>i. i * M) [1..<Suc j]"
    by (simp add: milestone_chain_def)
  then show "\<exists>j. milestonesOf (printed (snd (getNextNumbers k c))) = map (\<lambda>i. i * M) [1..<Suc j]" ..
qed

theorem milestones_announced_witness:
  "fst (getNextNumbers (12 - 1) ((newHnCalculator True False 10 (zeroes 10))\<lparr>milestoneInc := Some 5\<rparr>)) = [1..<12] \<and>
   milestonesOf (printed (snd (getNextNumbers (12 - 1)
       ((newHnCalculator True False 10 (zeroes 10))\<lparr>milestoneInc := Some 5\<rparr>)))) = [5, 10] \<and>
   (12 - 2) div 5 = (2::nat) \<and>
   fst (getNextNumbers 11 ((newHnCalculator True True 10 (zeroes 10))\<lparr>milestoneInc := Some 5\<rparr>)) =
     [1, 2, 3, 4, 5, 6, 7, 8, 9, 11, 12] \<and>
   (\<exists>j. milestonesOf (printed (snd (getNextNumbers 11
       ((newHnCalculator True True 10 (zeroes 10))\<lparr>milestoneInc := Some 5\<rparr>)))) = map (\<lambda>i. i * 5) [1..<Suc j])"
proof -
  let ?c = "(newHnCalculator True False 10 (zeroes 10))\<lparr>milestoneInc := Some 5\<rparr>"
  let ?d = "(newHnCalculator True True 10 (zeroes 10))\<lparr>milestoneInc := Some 5\<rparr>"
  have a: "(1::nat) \<le> 5" "(5::nat) < 2 ^ 64" by simp_all
  have c: "milestoneInc ?c = Some 5" "nextNumber ?c = 1" "lastMilestone ?c = 0" "printed ?c = []"
    by (simp_all add: newHnCalculator_def)
  have d: "milestoneInc ?d = Some 5" "nextNumber ?d = 1" "lastMilestone ?d = 0" "printed ?d = []"
    by (simp_all add: newHnCalculator_def)
  have nc: "\<not> skipPermutations ?c" and B: "(2::nat) \<le> 12" "(12::nat) + 5 \<le> 2 ^ 64"
    by (simp_all add: newHnCalculator_def)
  have m: "map (\<lambda>j. j * 5) [1..<Suc ((12 - 2) div 5)] = [5, 10::nat]" by (simp add: upt_rec)
  have p: "fst (getNextNumbers 11 ?d) = [1, 2, 3, 4, 5, 6, 7, 8, 9, 11, 12]"
    by (simp add: getNextNumbers_unfold cursor_eval)
  then have q: "\<forall>x \<in> set (fst (getNextNumbers 11 ?d)). x + 5 < 2 ^ 64" by simp
  from milestones_announced [OF a c, of 12] nc B m
  have x: "fst (getNextNumbers (12 - 1) ?c) = [1..<12] \<and>
      milestonesOf (printed (snd (getNextNumbers (12 - 1) ?c))) = [5, 10]" by simp
  from milestones_announced [OF a d, of _ 11] q
  have y: "\<exists>j. milestonesOf (printed (snd (getNextNumbers 11 ?d))) = map (\<lambda>i. i * 5) [1..<Suc j]"
    by blast
  from x y p show ?thesis by simp
qed

section \<open>Claims about the cache\<close>

text \<open>
  C8. On an object constructed with \<^verbatim>\<open>cacheResults\<close> set, in any memory, after any
  operations: an
  entry of the cache keeps its value through any further operations, and when a call
  \<^verbatim>\<open>isHappy(n)\<close> returns, the cache has an entry for \<open>n\<close> with the returned value.
\<close>

theorem cache_entries_stable:
  assumes "performAll (newHnCalculator True sp b h) calls = Some c"
  shows "(cache c k = Some v \<longrightarrow> performAll c calls' = Some c' \<longrightarrow> cache c' k = Some v) \<and>
         (isHappy c n = Some (happy, c'') \<longrightarrow> cache c'' n = Some happy \<and> isCached c'' n)"
proof -
  have "seeded c" using seeded_new assms by (rule performAll_seeded)
  then show ?thesis using performAll_cache [of c calls' c'] isHappy_cached_after [of c n happy c'']
    by blast
qed

theorem cache_entries_stable_witness:
  "\<exists>c c' c'' happy. performAll (newHnCalculator True True 10 (zeroes 10)) [IsHappy 19] = Some c \<and>
     cache c 19 = Some True \<and>
     performAll c [NewResult 19 False, GetNextNumber] = Some c' \<and> cache c' 19 = Some True \<and>
     isHappy c 7 = Some (happy, c'') \<and> cache c'' 7 = Some happy \<and> isCached c'' 7"
proof -
  have "\<exists>c. isHappy (newHnCalculator True True 10 (zeroes 10)) 19 = Some (True, c) \<and>
     cache c 19 = Some True \<and> base c = 10 \<and> fresh c = zeroes 10"
    by (simp add: isHappy.simps calc_eval digit_eval)
  then obtain c where i: "isHappy (newHnCalculator True True 10 (zeroes 10)) 19 = Some (True, c)"
    and v: "cache c 19 = Some True" and b: "base c = 10" and f: "fresh c = zeroes 10" by blast
  from b f have z: "skipPermutations c \<longrightarrow> zeroed c" by (simp add: zeroed_def zeroes_def)
  from i have c: "performAll (newHnCalculator True True 10 (zeroes 10)) [IsHappy 19] = Some c" by simp
  define c' where "c' = snd (getNextNumber (newResult c 19 False))"
  have c': "performAll c [NewResult 19 False, GetNextNumber] = Some c'" by (simp add: c'_def)
  have "(1::nat) \<le> 7" "(7::nat) < 2 ^ 64" by simp_all
  from isHappy_returns [OF b this z] obtain happy c'' where
    c'': "isHappy c 7 = Some (happy, c'')" by blast
  from cache_entries_stable [OF c, of 19 True "[NewResult 19 False, GetNextNumber]" c' 7 happy c'']
    v c' c''
  have "cache c' 19 = Some True \<and> cache c'' 7 = Some happy \<and> isCached c'' 7" by blast
  with c v c' c'' show ?thesis by blast
qed

section \<open>Claims about the worker loop\<close>

text \<open>
  C7, as stated: the worker never calls \<^verbatim>\<open>isHappy\<close> on a number that is at least
  \<^verbatim>\<open>stopAt\<close>. It fails for \<^verbatim>\<open>stopAt = 3\<close>: the worker calls \<^verbatim>\<open>isHappy\<close> on 1, 2 and 3.
\<close>

theorem threadLoop_exclusive_counterexample:
  "\<exists>c'. threadLoop ((newHnCalculator True False 10 (zeroes 10))\<lparr>stopAt := 3\<rparr>) = Some ([1, 2, 3], c') \<and>
     stopAt ((newHnCalculator True False 10 (zeroes 10))\<lparr>stopAt := 3\<rparr>) = 3"
  by (simp add: threadLoop_def threadLoop_from.simps isHappy.simps calc_eval digit_eval)

text \<open>
  C7, amended. The loop tests \<^verbatim>\<open>n < stopAt\<close> on the number pulled before, so
  \<^verbatim>\<open>stopAt\<close> is the highest number calculated: one worker on a new cursor, in base 10
  without skipping, calls \<^verbatim>\<open>isHappy\<close> on 1, 2, ..., \<^verbatim>\<open>stopAt\<close> in this order and
  returns. For any settings, when the loop returns, every number it called \<^verbatim>\<open>isHappy\<close>
  on but the last is below \<^verbatim>\<open>stopAt\<close>, and the last is at least \<^verbatim>\<open>stopAt\<close>.
\<close>

theorem threadLoop_through_stopAt:
  "(stopAt c < 2 ^ 64 \<longrightarrow> \<not> skipPermutations c \<longrightarrow> base c = 10 \<longrightarrow> nextNumber c = 1 \<longrightarrow>
      (\<exists>c'. threadLoop c = Some ([1..<stopAt c + 1], c'))) \<and>
   (threadLoop d = Some (ns, d') \<longrightarrow>
      (\<forall>x \<in> set (butlast ns). x < stopAt d) \<and> (ns \<noteq> [] \<longrightarrow> stopAt d \<le> last ns))"
proof (intro conjI impI)
  assume a: "stopAt c < 2 ^ 64" "\<not> skipPermutations c" "base c = 10" "nextNumber c = 1"
  have "0 < stopAt c \<longrightarrow> nextNumber c = 0 + 1" using a(4) by simp
  from threadLoop_from_noskip [OF a(2,3) refl a(1) _ this]
  show "\<exists>c'. threadLoop c = Some ([1..<stopAt c + 1], c')" by (simp add: threadLoop_def)
next
  assume "threadLoop d = Some (ns, d')"
  then have b: "loop_bounded d 0 (ns, d')" unfolding threadLoop_def by (rule threadLoop_from_bounded)
  then show "\<forall>x \<in> set (butlast ns). x < stopAt d" by (simp add: loop_bounded_def)
  assume "ns \<noteq> []"
  with b show "stopAt d \<le> last ns" by (simp add: loop_bounded_def)
qed

theorem threadLoop_through_stopAt_witness:
  "\<exists>c'. threadLoop ((newHnCalculator True False 10 (zeroes 10))\<lparr>stopAt := 5\<rparr>) = Some ([1, 2, 3, 4, 5], c') \<and>
     list_all (\<lambda>x. x < 5) (butlast [1, 2, 3, 4, 5::nat]) \<and> (5::nat) \<le> last [1, 2, 3, 4, 5]"
proof -
  let ?c = "(newHnCalculator True False 10 (zeroes 10))\<lparr>stopAt := 5\<rparr>"
  have a: "stopAt ?c < 2 ^ 64" "\<not> skipPermutations ?c" "base ?c = 10" "nextNumber ?c = 1"
    "stopAt ?c = 5"
    by (simp_all add: newHnCalculator_def)
  have u: "[1..<stopAt ?c + 1] = [1, 2, 3, 4, 5]" by (simp add: a(5) upt_rec)
  from threadLoop_through_stopAt [of ?c] a obtain c' where
    r: "threadLoop ?c = Some ([1..<stopAt ?c + 1], c')" by blast
  from threadLoop_through_stopAt [of _ ?c "[1, 2, 3, 4, 5]" c'] r u
  have "(\<forall>x \<in> set (butlast [1, 2, 3, 4, 5::nat]). x < stopAt ?c) \<and> stopAt ?c \<le> last [1, 2, 3, 4, 5]"
    by simp
  with r u a(5) show ?thesis by (simp add: list_all_iff)
qed

end
